theory Spec2Isabelle
  imports Main "HOL-Library.Word" "HOL-Library.Sublist"
begin

unbundle bit_operations_syntax

section \<open>Return codes and basic types (include/mux.h)\<close>

text \<open>
  The library reports outcomes as \<open>int\<close> codes: \<open>MUX_OK\<close> is 0 and every error is a
  distinct negative constant. The codes are modelled as a datatype; a C function that
  returns either a negative code or a non-negative count is modelled with a sum type,
  the code on the left.

  Pointers: a source pointer with its length is an optional byte list, a destination
  pointer is a flag (\<open>None\<close> and \<open>False\<close> stand for \<open>NULL\<close>), and what a function stores
  through its destination and out-parameters is part of its result. The pointer to the
  struct a function works on and the pointers to scalar out-parameters are taken to be
  valid; the guards that answer \<open>MUX_ERROR_INVAL\<close> when one of them is \<open>NULL\<close> have no
  branch here.
\<close>

datatype mux_status =
    MUX_OK
  | MUX_ERROR
  | MUX_ERROR_NOMEM
  | MUX_ERROR_INVAL
  | MUX_ERROR_AGAIN
  | MUX_ERROR_NOCODEC
  | MUX_ERROR_EOF
  | MUX_ERROR_ENCODE
  | MUX_ERROR_DECODE
  | MUX_ERROR_FORMAT
  | MUX_ERROR_INIT

type_synonym byte = "8 word"
type_synonym u64 = "64 word"

definition MUX_STREAM_AUDIO :: int where
  "MUX_STREAM_AUDIO = 0"

definition MUX_STREAM_SIDE_CHANNEL :: int where
  "MUX_STREAM_SIDE_CHANNEL = 1"

section \<open>LEB128 varints (src/mux\_leb128.c)\<close>

text \<open>
  \<open>mux_leb128_encode\<close>: the do-while loop emits the low seven bits of \<open>value\<close>, shifts
  \<open>value\<close> right by seven and sets the continuation bit when something is left. The
  bound check \<open>count >= output_size\<close> comes before every store. The destination
  pointer is the flag \<open>output\<close> (\<open>False\<close> is \<open>NULL\<close>); the bytes stored and their
  count are the result.
\<close>

function leb128_encode_loop :: "u64 \<Rightarrow> nat \<Rightarrow> nat \<Rightarrow> mux_status + byte list" where
  "leb128_encode_loop v count output_size =
     (if count \<ge> output_size then Inl MUX_ERROR_INVAL
      else if drop_bit 7 v \<noteq> 0 then
        (case leb128_encode_loop (drop_bit 7 v) (count + 1) output_size of
           Inl e \<Rightarrow> Inl e
         | Inr rest \<Rightarrow> Inr ((ucast (v AND 0x7f) OR 0x80) # rest))
      else Inr [ucast (v AND 0x7f)])"
  by pat_completeness auto
termination
proof (relation "measure (\<lambda>(v, count, output_size). unat v)")
  show "wf (measure (\<lambda>(v, count, output_size). unat v))"
    by simp
next
  fix v :: u64 and count output_size :: nat
  assume nz: "drop_bit 7 v \<noteq> 0"
  have e: "unat (drop_bit 7 v) = unat v div 128"
    using unat_drop_bit_eq [of 7 v] by (simp only: drop_bit_eq_div [of 7 "unat v"]) simp
  from nz have "unat (drop_bit 7 v) \<noteq> 0"
    by (simp add: unat_eq_0)
  with e have "unat (drop_bit 7 v) < unat v"
    by simp
  then show "((drop_bit 7 v, count + 1, output_size), (v, count, output_size))
      \<in> measure (\<lambda>(v, count, output_size). unat v)"
    by simp
qed

declare leb128_encode_loop.simps [simp del]

definition mux_leb128_encode :: "u64 \<Rightarrow> bool \<Rightarrow> nat \<Rightarrow> mux_status + byte list" where
  "mux_leb128_encode v output output_size =
     (if \<not> output then Inl MUX_ERROR_INVAL
      else leb128_encode_loop v 0 output_size)"

text \<open>
  \<open>mux_leb128_decode\<close>: the input pointer with its \<open>input_size\<close> readable bytes is a
  byte list, so \<open>count >= input_size\<close> is the empty list. After each byte \<open>shift\<close>
  grows by 7 and the function gives up with \<open>MUX_ERROR_INVAL\<close> as soon as \<open>shift\<close>
  reaches 64, before the continuation bit of that byte is looked at.
\<close>

fun leb128_decode_loop :: "byte list \<Rightarrow> u64 \<Rightarrow> nat \<Rightarrow> nat \<Rightarrow> mux_status + (u64 \<times> nat)" where
  "leb128_decode_loop [] result shift count = Inl MUX_ERROR_AGAIN"
| "leb128_decode_loop (byte # rest) result shift count =
     (if shift + 7 \<ge> 64 then Inl MUX_ERROR_INVAL
      else if byte AND 0x80 \<noteq> 0 then
        leb128_decode_loop rest (result OR push_bit shift (ucast (byte AND 0x7f))) (shift + 7) (count + 1)
      else Inr (result OR push_bit shift (ucast (byte AND 0x7f)), count + 1))"

definition mux_leb128_decode :: "byte list option \<Rightarrow> mux_status + (u64 \<times> nat)" where
  "mux_leb128_decode input =
     (case input of
        None \<Rightarrow> Inl MUX_ERROR_INVAL
      | Some bytes \<Rightarrow> leb128_decode_loop bytes 0 0 0)"

section \<open>The growable byte buffer (src/buffer.c)\<close>

text \<open>
  \<open>struct mux_buffer\<close>: \<open>data\<close> is the allocated region, a list of \<open>capacity\<close> bytes
  (the pointer is \<open>NULL\<close> exactly when nothing has been allocated, \<open>capacity = 0\<close>);
  \<open>size_buf\<close> is the C field \<open>size\<close>. Fresh memory from \<open>malloc\<close>/\<open>realloc\<close> is
  modelled as zero bytes. The sizes are 64-bit \<open>size_t\<close> values: they are natural
  numbers here, sums of them staying below \<open>2^64\<close> for buffers and sources that exist
  in memory, and the one subtraction that could wrap, \<open>size - read_pos\<close>, is written
  with its 64-bit wrap-around.

  Allocation can fail: \<open>alloc n\<close> says whether a request for \<open>n\<close> bytes succeeds.
\<close>

record mux_buffer =
  data :: "byte list"
  size_buf :: nat
  capacity :: nat
  read_pos :: nat

definition size_t_sub :: "nat \<Rightarrow> nat \<Rightarrow> nat" where
  "size_t_sub a b = (if b \<le> a then a - b else a + 2 ^ 64 - b)"

definition memcpy_into :: "'a list \<Rightarrow> nat \<Rightarrow> 'a list \<Rightarrow> 'a list" where
  "memcpy_into region off bytes = take off region @ bytes @ drop (off + length bytes) region"

definition mux_buffer_init :: "(nat \<Rightarrow> bool) \<Rightarrow> nat \<Rightarrow> mux_status \<times> mux_buffer" where
  "mux_buffer_init alloc initial_capacity =
     (let buf = \<lparr>data = [], size_buf = 0, capacity = 0, read_pos = 0\<rparr>
      in if initial_capacity > 0 then
           (if \<not> alloc initial_capacity then (MUX_ERROR_NOMEM, buf)
            else (MUX_OK, buf\<lparr>data := replicate initial_capacity 0,
                               capacity := initial_capacity,
                               size_buf := 0, read_pos := 0\<rparr>))
         else (MUX_OK, buf\<lparr>size_buf := 0, read_pos := 0\<rparr>))"

definition mux_buffer_ensure_capacity ::
    "(nat \<Rightarrow> bool) \<Rightarrow> mux_buffer \<Rightarrow> nat \<Rightarrow> mux_status \<times> mux_buffer" where
  "mux_buffer_ensure_capacity alloc buf needed =
     (if capacity buf \<ge> needed then (MUX_OK, buf)
      else
        (let grown = capacity buf + drop_bit 1 (capacity buf);
             new_capacity = (if grown < needed then needed else grown)
         in if \<not> alloc new_capacity then (MUX_ERROR_NOMEM, buf)
            else (MUX_OK, buf\<lparr>data := data buf @ replicate (new_capacity - capacity buf) 0,
                               capacity := new_capacity\<rparr>)))"

text \<open>
  \<open>mux_buffer_write(buf, data, size)\<close>: the source pointer with its \<open>size\<close> bytes is
  an optional byte list, \<open>None\<close> for \<open>NULL\<close>.
\<close>

definition mux_buffer_write ::
    "(nat \<Rightarrow> bool) \<Rightarrow> mux_buffer \<Rightarrow> byte list option \<Rightarrow> mux_status \<times> mux_buffer" where
  "mux_buffer_write alloc buf src =
     (case src of
        None \<Rightarrow> (MUX_ERROR_INVAL, buf)
      | Some bytes \<Rightarrow>
          if length bytes = 0 then (MUX_OK, buf)
          else
            (case mux_buffer_ensure_capacity alloc buf (size_buf buf + length bytes) of
               (ret, buf') \<Rightarrow>
                 if ret \<noteq> MUX_OK then (ret, buf')
                 else (MUX_OK, buf'\<lparr>data := memcpy_into (data buf') (size_buf buf') bytes,
                                     size_buf := size_buf buf' + length bytes\<rparr>)))"

text \<open>
  \<open>mux_buffer_read(buf, data, size, bytes_read)\<close>: \<open>dst\<close> says whether the destination
  pointer \<open>data\<close> is non-null. The result holds the return code, the buffer afterwards,
  the bytes copied to the destination (\<open>None\<close> when \<open>memcpy\<close> was not called) and the
  value stored in \<open>*bytes_read\<close>.
\<close>

record buffer_read_result =
  br_status :: mux_status
  br_buf :: mux_buffer
  br_copied :: "byte list option"
  br_bytes_read :: nat

definition mux_buffer_read :: "mux_buffer \<Rightarrow> bool \<Rightarrow> nat \<Rightarrow> buffer_read_result" where
  "mux_buffer_read buf dst size_req =
     (let available = size_t_sub (size_buf buf) (read_pos buf)
      in if available = 0 then
           \<lparr>br_status = MUX_ERROR_AGAIN, br_buf = buf, br_copied = None, br_bytes_read = 0\<rparr>
         else
           (let n = (if size_req > available then available else size_req);
                copied = (if dst then Some (take n (drop (read_pos buf) (data buf))) else None);
                buf1 = buf\<lparr>read_pos := read_pos buf + n\<rparr>;
                buf2 = (if read_pos buf1 = size_buf buf1
                        then buf1\<lparr>read_pos := 0, size_buf := 0\<rparr> else buf1)
            in \<lparr>br_status = MUX_OK, br_buf = buf2, br_copied = copied, br_bytes_read = n\<rparr>))"

definition mux_buffer_clear :: "mux_buffer \<Rightarrow> mux_buffer" where
  "mux_buffer_clear buf = buf\<lparr>size_buf := 0, read_pos := 0\<rparr>"

text \<open>The bytes written and not yet consumed: positions \<open>read_pos\<close> up to \<open>size\<close>.\<close>

definition unread :: "mux_buffer \<Rightarrow> byte list" where
  "unread buf = take (size_t_sub (size_buf buf) (read_pos buf)) (drop (read_pos buf) (data buf))"

text \<open>
  The invariant of the specification, and the shape of a buffer that owns storage:
  what \<open>mux_buffer_init\<close> with a positive capacity sets up.
\<close>

definition buf_inv :: "mux_buffer \<Rightarrow> bool" where
  "buf_inv buf = (read_pos buf \<le> size_buf buf \<and> size_buf buf \<le> capacity buf)"

definition buf_wf :: "mux_buffer \<Rightarrow> bool" where
  "buf_wf buf = (buf_inv buf \<and> length (data buf) = capacity buf \<and> 0 < capacity buf)"

text \<open>Sequences of buffer operations, each write with its own allocator.\<close>

datatype buf_op =
    Op_write "nat \<Rightarrow> bool" "byte list option"
  | Op_read bool nat
  | Op_clear

fun apply_buf_op :: "mux_buffer \<Rightarrow> buf_op \<Rightarrow> mux_buffer" where
  "apply_buf_op buf (Op_write alloc src) = snd (mux_buffer_write alloc buf src)"
| "apply_buf_op buf (Op_read dst size_req) = br_buf (mux_buffer_read buf dst size_req)"
| "apply_buf_op buf Op_clear = mux_buffer_clear buf"

definition run_buf_ops :: "mux_buffer \<Rightarrow> buf_op list \<Rightarrow> mux_buffer" where
  "run_buf_ops buf ops = foldl apply_buf_op buf ops"

section \<open>Frames (src/mux\_leb128.c)\<close>

text \<open>
  \<open>mux_leb128_write_frame(output, payload, payload_size, stream_type, num_streams)\<close>:
  \<open>payload\<close> is the memory behind the pointer (\<open>None\<close> for \<open>NULL\<close>), of which the first
  \<open>payload_size\<close> bytes are written. The header value is computed in 64 bits:
  \<open>payload_size\<close> shifted left by one, the stream bit below it.
\<close>

definition mux_leb128_write_frame ::
    "(nat \<Rightarrow> bool) \<Rightarrow> mux_buffer \<Rightarrow> byte list option \<Rightarrow> nat \<Rightarrow> int \<Rightarrow> int
      \<Rightarrow> mux_status \<times> mux_buffer" where
  "mux_leb128_write_frame alloc output payload payload_size stream_type num_streams =
     (if num_streams = 1 then
        (case payload of
           Some p \<Rightarrow>
             if payload_size > 0 then
               (case mux_buffer_write alloc output (Some (take payload_size p)) of
                  (ret, output') \<Rightarrow> if ret \<noteq> MUX_OK then (ret, output') else (MUX_OK, output'))
             else (MUX_OK, output)
         | None \<Rightarrow> (MUX_OK, output))
      else
        (let length_with_stream =
               push_bit 1 (of_nat payload_size :: u64) OR (word_of_int stream_type AND 1)
         in case mux_leb128_encode length_with_stream True 10 of
              Inl e \<Rightarrow> (e, output)
            | Inr leb128_buf \<Rightarrow>
                (case mux_buffer_write alloc output (Some leb128_buf) of
                   (ret, output') \<Rightarrow>
                     if ret \<noteq> MUX_OK then (ret, output')
                     else
                       (case payload of
                          Some p \<Rightarrow>
                            if payload_size > 0 then
                              (case mux_buffer_write alloc output' (Some (take payload_size p)) of
                                 (ret2, output'') \<Rightarrow>
                                   if ret2 \<noteq> MUX_OK then (ret2, output'') else (MUX_OK, output''))
                            else (MUX_OK, output')
                        | None \<Rightarrow> (MUX_OK, output')))))"

text \<open>
  \<open>mux_leb128_read_frame(input, payload, payload_capacity, payload_size, stream_type,
  num_streams)\<close>: \<open>payload\<close> says whether the destination pointer is non-null. The result
  holds the return code, the input buffer afterwards, the bytes copied to the destination
  and the values stored through \<open>payload_size\<close> and \<open>stream_type\<close> (\<open>None\<close> where the
  function returns before storing them).

  In mux mode the header is decoded from \<open>input->data + input->read_pos\<close>, a null
  pointer when the buffer owns no storage.
\<close>

record frame_read_result =
  fr_status :: mux_status
  fr_input :: mux_buffer
  fr_payload :: "byte list option"
  fr_payload_size :: "nat option"
  fr_stream_type :: "int option"

definition mux_leb128_read_frame ::
    "mux_buffer \<Rightarrow> bool \<Rightarrow> nat \<Rightarrow> int \<Rightarrow> frame_read_result" where
  "mux_leb128_read_frame input payload payload_capacity num_streams =
     (let available = size_t_sub (size_buf input) (read_pos input)
      in if num_streams = 1 then
           (if available = 0 then
              \<lparr>fr_status = MUX_ERROR_AGAIN, fr_input = input, fr_payload = None,
               fr_payload_size = None, fr_stream_type = None\<rparr>
            else
              (let actual_payload_size =
                     (if available < payload_capacity then available else payload_capacity);
                   copied = (if payload \<and> actual_payload_size > 0
                             then Some (take actual_payload_size (drop (read_pos input) (data input)))
                             else None);
                   input1 = input\<lparr>read_pos := read_pos input + actual_payload_size\<rparr>;
                   input2 = (if read_pos input1 = size_buf input1
                             then input1\<lparr>read_pos := 0, size_buf := 0\<rparr> else input1)
               in \<lparr>fr_status = MUX_OK, fr_input = input2, fr_payload = copied,
                   fr_payload_size = Some actual_payload_size,
                   fr_stream_type = Some MUX_STREAM_AUDIO\<rparr>))
         else
           (case mux_leb128_decode
                   (if capacity input = 0 then None
                    else Some (take available (drop (read_pos input) (data input)))) of
              Inl e \<Rightarrow>
                \<lparr>fr_status = e, fr_input = input, fr_payload = None,
                 fr_payload_size = None, fr_stream_type = None\<rparr>
            | Inr (length_with_stream, leb128_bytes) \<Rightarrow>
                (let stream = uint (length_with_stream AND 1);
                     actual_payload_size = unat (drop_bit 1 length_with_stream)
                 in if available < leb128_bytes + actual_payload_size then
                      \<lparr>fr_status = MUX_ERROR_AGAIN, fr_input = input, fr_payload = None,
                       fr_payload_size = None, fr_stream_type = None\<rparr>
                    else if payload \<and> payload_capacity < actual_payload_size then
                      \<lparr>fr_status = MUX_ERROR_INVAL, fr_input = input, fr_payload = None,
                       fr_payload_size = Some actual_payload_size, fr_stream_type = Some stream\<rparr>
                    else
                      (let input1 = input\<lparr>read_pos := read_pos input + leb128_bytes\<rparr>;
                           copied = (if payload \<and> actual_payload_size > 0
                                     then Some (take actual_payload_size
                                                  (drop (read_pos input1) (data input1)))
                                     else None);
                           input2 = input1\<lparr>read_pos := read_pos input1 + actual_payload_size\<rparr>;
                           input3 = (if read_pos input2 = size_buf input2
                                     then input2\<lparr>read_pos := 0, size_buf := 0\<rparr> else input2)
                       in \<lparr>fr_status = MUX_OK, fr_input = input3, fr_payload = copied,
                           fr_payload_size = Some actual_payload_size,
                           fr_stream_type = Some stream\<rparr>))))"

section \<open>Reading frames from a stream that arrives in pieces\<close>

text \<open>
  The unread bytes \<open>u\<close> of an input buffer hold no complete frame when the header has
  not ended yet (fewer than ten bytes, each with the continuation bit), or when the
  header decodes and its bytes together with the payload length it declares exceed
  \<open>u\<close>.
\<close>

definition header_incomplete :: "byte list \<Rightarrow> bool" where
  "header_incomplete u = (length u < 10 \<and> list_all (\<lambda>byte. byte AND 0x80 \<noteq> 0) u)"

definition payload_incomplete :: "byte list \<Rightarrow> bool" where
  "payload_incomplete u =
     (case mux_leb128_decode (Some u) of
        Inl e \<Rightarrow> False
      | Inr (length_with_stream, leb128_bytes) \<Rightarrow>
          length u < leb128_bytes + unat (drop_bit 1 length_with_stream))"

text \<open>The payload a successful read delivers: empty when nothing had to be copied.\<close>

definition received :: "frame_read_result \<Rightarrow> byte list" where
  "received r = (case fr_payload r of None \<Rightarrow> [] | Some bytes \<Rightarrow> bytes)"

text \<open>
  A receiver in the manner of the decoders' \<open>decoder_decode\<close>: each chunk is appended to
  the input buffer with \<open>mux_buffer_write\<close> and \<open>mux_leb128_read_frame\<close> is called on
  it; the results of the calls are collected. A failed write ends the run.
\<close>

fun feed_chunks ::
    "(nat \<Rightarrow> bool) \<Rightarrow> mux_buffer \<Rightarrow> byte list list \<Rightarrow> nat \<Rightarrow> int \<Rightarrow> frame_read_result list" where
  "feed_chunks alloc input [] payload_capacity num_streams = []"
| "feed_chunks alloc input (chunk # chunks) payload_capacity num_streams =
     (case mux_buffer_write alloc input (Some chunk) of
        (ret, input1) \<Rightarrow>
          if ret \<noteq> MUX_OK then []
          else
            (let r = mux_leb128_read_frame input1 True payload_capacity num_streams
             in r # feed_chunks alloc (fr_input r) chunks payload_capacity num_streams))"

definition frames_read :: "frame_read_result list \<Rightarrow> (mux_status \<times> byte list \<times> nat option \<times> int option) list" where
  "frames_read rs =
     map (\<lambda>r. (fr_status r, received r, fr_payload_size r, fr_stream_type r))
       (filter (\<lambda>r. fr_status r \<noteq> MUX_ERROR_AGAIN) rs)"

text \<open>An allocator that never fails.\<close>

definition alloc_always :: "nat \<Rightarrow> bool" where
  "alloc_always n = True"

section \<open>Decoder instances and \<open>decoder_read\<close> (src/codec\_pcm.c, codec\_alaw.c, codec\_amr.c)\<close>

text \<open>
  \<open>struct mux_decoder\<close> with the fields the read path uses: the two output buffers,
  beside the codec identifier and the stream-count mode. The \<open>ops\<close> pointer, the error
  record and the codec's private data are not touched by \<open>decoder_read\<close> and are left
  out.

  \<open>decoder_read(dec, output, output_size, output_written, stream_type)\<close>: \<open>output\<close> says
  whether the destination pointer is non-null. The result holds the return code, the
  decoder afterwards, the bytes copied to \<open>output\<close> and the values stored through
  \<open>output_written\<close> and \<open>stream_type\<close>. The three adapters have the same body.
\<close>

record mux_decoder =
  dec_codec_type :: int
  dec_num_streams :: int
  audio_output :: mux_buffer
  side_output :: mux_buffer

record decoder_read_result =
  dr_status :: mux_status
  dr_dec :: mux_decoder
  dr_output :: "byte list option"
  dr_output_written :: "nat option"
  dr_stream_type :: "int option"

definition pcm_decoder_read :: "mux_decoder \<Rightarrow> bool \<Rightarrow> nat \<Rightarrow> decoder_read_result" where
  "pcm_decoder_read dec output output_size =
     (if \<not> output then
        \<lparr>dr_status = MUX_ERROR_INVAL, dr_dec = dec, dr_output = None,
         dr_output_written = None, dr_stream_type = None\<rparr>
      else
        (let r = mux_buffer_read (audio_output dec) output output_size;
             dec1 = dec\<lparr>audio_output := br_buf r\<rparr>
         in if br_status r = MUX_OK then
              \<lparr>dr_status = MUX_OK, dr_dec = dec1, dr_output = br_copied r,
               dr_output_written = Some (br_bytes_read r),
               dr_stream_type = Some MUX_STREAM_AUDIO\<rparr>
            else
              (let r2 = mux_buffer_read (side_output dec1) output output_size;
                   dec2 = dec1\<lparr>side_output := br_buf r2\<rparr>
               in if br_status r2 = MUX_OK then
                    \<lparr>dr_status = MUX_OK, dr_dec = dec2, dr_output = br_copied r2,
                     dr_output_written = Some (br_bytes_read r2),
                     dr_stream_type = Some MUX_STREAM_SIDE_CHANNEL\<rparr>
                  else
                    \<lparr>dr_status = MUX_ERROR_AGAIN, dr_dec = dec2, dr_output = None,
                     dr_output_written = Some 0, dr_stream_type = None\<rparr>)))"

definition alaw_decoder_read :: "mux_decoder \<Rightarrow> bool \<Rightarrow> nat \<Rightarrow> decoder_read_result" where
  "alaw_decoder_read dec output output_size =
     (if \<not> output then
        \<lparr>dr_status = MUX_ERROR_INVAL, dr_dec = dec, dr_output = None,
         dr_output_written = None, dr_stream_type = None\<rparr>
      else
        (let r = mux_buffer_read (audio_output dec) output output_size;
             dec1 = dec\<lparr>audio_output := br_buf r\<rparr>
         in if br_status r = MUX_OK then
              \<lparr>dr_status = MUX_OK, dr_dec = dec1, dr_output = br_copied r,
               dr_output_written = Some (br_bytes_read r),
               dr_stream_type = Some MUX_STREAM_AUDIO\<rparr>
            else
              (let r2 = mux_buffer_read (side_output dec1) output output_size;
                   dec2 = dec1\<lparr>side_output := br_buf r2\<rparr>
               in if br_status r2 = MUX_OK then
                    \<lparr>dr_status = MUX_OK, dr_dec = dec2, dr_output = br_copied r2,
                     dr_output_written = Some (br_bytes_read r2),
                     dr_stream_type = Some MUX_STREAM_SIDE_CHANNEL\<rparr>
                  else
                    \<lparr>dr_status = MUX_ERROR_AGAIN, dr_dec = dec2, dr_output = None,
                     dr_output_written = Some 0, dr_stream_type = None\<rparr>)))"

definition amr_decoder_read :: "mux_decoder \<Rightarrow> bool \<Rightarrow> nat \<Rightarrow> decoder_read_result" where
  "amr_decoder_read dec output output_size =
     (if \<not> output then
        \<lparr>dr_status = MUX_ERROR_INVAL, dr_dec = dec, dr_output = None,
         dr_output_written = None, dr_stream_type = None\<rparr>
      else
        (let r = mux_buffer_read (audio_output dec) output output_size;
             dec1 = dec\<lparr>audio_output := br_buf r\<rparr>
         in if br_status r = MUX_OK then
              \<lparr>dr_status = MUX_OK, dr_dec = dec1, dr_output = br_copied r,
               dr_output_written = Some (br_bytes_read r),
               dr_stream_type = Some MUX_STREAM_AUDIO\<rparr>
            else
              (let r2 = mux_buffer_read (side_output dec1) output output_size;
                   dec2 = dec1\<lparr>side_output := br_buf r2\<rparr>
               in if br_status r2 = MUX_OK then
                    \<lparr>dr_status = MUX_OK, dr_dec = dec2, dr_output = br_copied r2,
                     dr_output_written = Some (br_bytes_read r2),
                     dr_stream_type = Some MUX_STREAM_SIDE_CHANNEL\<rparr>
                  else
                    \<lparr>dr_status = MUX_ERROR_AGAIN, dr_dec = dec2, dr_output = None,
                     dr_output_written = Some 0, dr_stream_type = None\<rparr>)))"

section \<open>The codec registry and encoder construction (src/core.c)\<close>

text \<open>
  \<open>struct mux_encoder\<close>: the fields carry the prefix \<open>enc_\<close>; the \<open>ops\<close> pointer is
  kept as the index of the table entry it points to, \<open>enc_codec_data\<close> is \<open>None\<close> for a
  null pointer; the error record is left out.

  \<open>struct mux_codec_ops\<close> is represented by its \<open>encoder_init\<close> member, \<open>None\<close> for a null
  function pointer. The operations table \<open>codec_ops_table\<close> depends on the build
  (\<open>HAVE_MP3\<close>, \<open>HAVE_OPUS\<close>, ...): it is a parameter, a list of \<open>MUX_CODEC_MAX\<close> entries,
  \<open>None\<close> for a \<open>NULL\<close> entry.
\<close>

record 'c mux_encoder =
  enc_codec_type :: int
  enc_ops :: "nat option"
  enc_sample_rate :: int
  enc_num_channels :: int
  enc_num_streams :: int
  enc_output :: mux_buffer
  enc_codec_data :: "'c option"

record ('c, 'p) mux_codec_ops =
  encoder_init :: "('c mux_encoder \<Rightarrow> int \<Rightarrow> int \<Rightarrow> 'p \<Rightarrow> mux_status \<times> 'c mux_encoder) option"

definition mux_get_codec_ops ::
    "('c, 'p) mux_codec_ops option list \<Rightarrow> int \<Rightarrow> ('c, 'p) mux_codec_ops option" where
  "mux_get_codec_ops codec_ops_table type =
     (if type < 0 \<or> type \<ge> int (length codec_ops_table) then None
      else codec_ops_table ! nat type)"

text \<open>
  A call through a function pointer: calling a null pointer does not return, which is
  the result \<open>None\<close>.
\<close>

definition call_encoder_init ::
    "('c mux_encoder \<Rightarrow> int \<Rightarrow> int \<Rightarrow> 'p \<Rightarrow> mux_status \<times> 'c mux_encoder) option
      \<Rightarrow> 'c mux_encoder \<Rightarrow> int \<Rightarrow> int \<Rightarrow> 'p \<Rightarrow> (mux_status \<times> 'c mux_encoder) option" where
  "call_encoder_init fp enc sr ch params =
     (case fp of None \<Rightarrow> None | Some f \<Rightarrow> Some (f enc sr ch params))"

definition zero_buffer :: mux_buffer where
  "zero_buffer = \<lparr>data = [], size_buf = 0, capacity = 0, read_pos = 0\<rparr>"

definition zero_encoder :: "'c mux_encoder" where
  "zero_encoder = \<lparr>enc_codec_type = 0, enc_ops = None, enc_sample_rate = 0, enc_num_channels = 0,
                    enc_num_streams = 0, enc_output = zero_buffer, enc_codec_data = None\<rparr>"

definition mux_buffer_deinit :: "mux_buffer \<Rightarrow> mux_buffer" where
  "mux_buffer_deinit buf = zero_buffer"

text \<open>
  \<open>mux_encoder_init(enc, codec_type, sample_rate, num_channels, num_streams, params,
  num_params)\<close>: \<open>enc\<close> is the struct behind the pointer, \<open>None\<close> for \<open>NULL\<close>. The result is
  \<open>None\<close> when the function calls a null function pointer, otherwise the return code
  with the struct afterwards.
\<close>

definition mux_encoder_init ::
    "('c, 'p) mux_codec_ops option list \<Rightarrow> (nat \<Rightarrow> bool) \<Rightarrow> 'c mux_encoder option
      \<Rightarrow> int \<Rightarrow> int \<Rightarrow> int \<Rightarrow> int \<Rightarrow> 'p
      \<Rightarrow> (mux_status \<times> 'c mux_encoder option) option" where
  "mux_encoder_init codec_ops_table alloc enc type sr ch ns params =
     (case enc of
        None \<Rightarrow> Some (MUX_ERROR_INVAL, None)
      | Some e \<Rightarrow>
          if ns \<noteq> 1 \<and> ns \<noteq> 2 then Some (MUX_ERROR_INVAL, Some e)
          else
            (case mux_get_codec_ops codec_ops_table type of
               None \<Rightarrow> Some (MUX_ERROR_NOCODEC, Some zero_encoder)
             | Some ops_entry \<Rightarrow>
                 if encoder_init ops_entry = None then Some (MUX_ERROR_NOCODEC, Some zero_encoder)
                 else
                   (let e1 = zero_encoder\<lparr>enc_codec_type := type, enc_ops := Some (nat type),
                                           enc_sample_rate := sr, enc_num_channels := ch,
                                           enc_num_streams := ns\<rparr>
                    in case mux_buffer_init alloc 4096 of
                         (ret, out) \<Rightarrow>
                           if ret \<noteq> MUX_OK then Some (ret, Some (e1\<lparr>enc_output := out\<rparr>))
                           else
                             (case call_encoder_init (encoder_init ops_entry)
                                     (e1\<lparr>enc_output := out\<rparr>) sr ch params of
                                None \<Rightarrow> None
                              | Some (ret2, e2) \<Rightarrow>
                                  if ret2 \<noteq> MUX_OK
                                  then Some (ret2, Some (e2\<lparr>enc_output := mux_buffer_deinit (enc_output e2)\<rparr>))
                                  else Some (MUX_OK, Some e2)))))"

text \<open>
  \<open>mux_encoder_new\<close>: \<open>calloc\<close> gives a zeroed struct or fails; the function returns the
  encoder, or \<open>NULL\<close> (the inner \<open>None\<close>) whenever \<open>mux_encoder_init\<close> does not return
  \<open>MUX_OK\<close>.
\<close>

definition mux_encoder_new ::
    "('c, 'p) mux_codec_ops option list \<Rightarrow> (nat \<Rightarrow> bool) \<Rightarrow> bool
      \<Rightarrow> int \<Rightarrow> int \<Rightarrow> int \<Rightarrow> int \<Rightarrow> 'p
      \<Rightarrow> 'c mux_encoder option option" where
  "mux_encoder_new codec_ops_table alloc calloc_ok type sr ch ns params =
     (if \<not> calloc_ok then Some None
      else
        (case mux_encoder_init codec_ops_table alloc (Some zero_encoder) type sr ch ns params of
           None \<Rightarrow> None
         | Some (ret, enc) \<Rightarrow> if ret \<noteq> MUX_OK then Some None else Some enc))"

text \<open>
  \<open>pcm_encoder_init\<close> (src/codec\_pcm.c) ignores its arguments, sets \<open>codec_data\<close> to
  \<open>NULL\<close> and returns \<open>MUX_OK\<close>.
\<close>

definition pcm_encoder_init :: "'c mux_encoder \<Rightarrow> int \<Rightarrow> int \<Rightarrow> 'p \<Rightarrow> mux_status \<times> 'c mux_encoder" where
  "pcm_encoder_init enc sr ch params = (MUX_OK, enc\<lparr>enc_codec_data := None\<rparr>)"

section \<open>The AMR-NB encoder (src/codec\_amr.c)\<close>

text \<open>
  \<open>struct amr_encoder_data\<close>: \<open>encoder\<close> is the state of the native encoder behind the
  opaque handle, \<open>input_buf\<close> the array of \<open>AMR_FRAME_SAMPLES = 160\<close> samples,
  \<open>input_samples\<close> a 32-bit \<open>int\<close>. The native
  entry point \<open>Encoder_Interface_Encode\<close> is a parameter: from the encoder state, the
  mode and the 160 samples it gives the frame size it returns, the contents of
  \<open>frame_buf\<close> and the new encoder state.

  The input bytes are read as 16-bit samples the way a little-endian host does.
\<close>

type_synonym sample = "16 word"

record 's amr_encoder_data =
  encoder :: 's
  mode :: int
  dtx :: int
  input_buf :: "sample list"
  input_samples :: "32 word"

type_synonym 's native_encode = "'s \<Rightarrow> int \<Rightarrow> sample list \<Rightarrow> int \<times> byte list \<times> 's"

fun samples_of_bytes :: "byte list \<Rightarrow> sample list" where
  "samples_of_bytes (lo # hi # rest) = word_cat hi lo # samples_of_bytes rest"
| "samples_of_bytes rest = []"

text \<open>
  \<open>size_t need = AMR_FRAME_SAMPLES - data->input_samples\<close>: an \<open>int\<close> difference
  converted to \<open>size_t\<close>.
\<close>

definition amr_need :: "'s amr_encoder_data \<Rightarrow> nat" where
  "amr_need d = nat ((160 - sint (input_samples d)) mod 2 ^ 64)"

text \<open>The copy into the sample window and the advance of \<open>input_samples\<close>.\<close>

definition amr_fill :: "'s amr_encoder_data \<Rightarrow> sample list \<Rightarrow> 's amr_encoder_data" where
  "amr_fill d samples =
     d\<lparr>input_buf := memcpy_into (input_buf d) (nat (sint (input_samples d)))
                       (take (min (length samples) (amr_need d)) samples),
       input_samples := input_samples d + of_nat (min (length samples) (amr_need d))\<rparr>"

text \<open>
  The loop \<open>while (samples_available > 0)\<close> of \<open>amr_encoder_encode\<close>, on the samples
  still to be taken; it returns the code, the encoder, the codec data and the bytes
  consumed.
\<close>

function amr_encode_loop ::
    "'s native_encode \<Rightarrow> (nat \<Rightarrow> bool) \<Rightarrow> 's amr_encoder_data mux_encoder \<Rightarrow> 's amr_encoder_data
      \<Rightarrow> sample list \<Rightarrow> nat
      \<Rightarrow> mux_status \<times> 's amr_encoder_data mux_encoder \<times> 's amr_encoder_data \<times> nat" where
  "amr_encode_loop native alloc enc d samples consumed =
     (if samples = [] then (MUX_OK, enc, d, consumed)
      else if input_samples (amr_fill d samples) = 160 then
        (case native (encoder (amr_fill d samples)) (mode (amr_fill d samples))
                (input_buf (amr_fill d samples)) of
           (frame_size, frame_buf, st) \<Rightarrow>
             if frame_size < 0 then
               (MUX_ERROR_ENCODE, enc, (amr_fill d samples)\<lparr>encoder := st\<rparr>,
                consumed + min (length samples) (amr_need d) * 2)
             else
               (case mux_leb128_write_frame alloc (enc_output enc) (Some frame_buf)
                       (nat frame_size) MUX_STREAM_AUDIO (enc_num_streams enc) of
                  (ret, out) \<Rightarrow>
                    if ret \<noteq> MUX_OK then
                      (ret, enc\<lparr>enc_output := out\<rparr>, (amr_fill d samples)\<lparr>encoder := st\<rparr>,
                       consumed + min (length samples) (amr_need d) * 2)
                    else
                      amr_encode_loop native alloc (enc\<lparr>enc_output := out\<rparr>)
                        ((amr_fill d samples)\<lparr>encoder := st, input_samples := 0\<rparr>)
                        (drop (min (length samples) (amr_need d)) samples)
                        (consumed + min (length samples) (amr_need d) * 2)))
      else
        amr_encode_loop native alloc enc (amr_fill d samples)
          (drop (min (length samples) (amr_need d)) samples)
          (consumed + min (length samples) (amr_need d) * 2))"
  by pat_completeness auto
termination
proof -
  have need_zero: "amr_need d = 0 \<longleftrightarrow> input_samples d = 160" for d :: "'s amr_encoder_data"
  proof -
    let ?s = "input_samples d"
    have r: "- (2 ^ 31) \<le> sint ?s" "sint ?s < 2 ^ 31"
      using sint_ge [of ?s] sint_lt [of ?s] by simp_all
    have "0 \<le> (160 - sint ?s) mod 2 ^ 64"
      by simp
    then have "amr_need d = 0 \<longleftrightarrow> (160 - sint ?s) mod 2 ^ 64 = 0"
      unfolding amr_need_def by arith
    also have "\<dots> \<longleftrightarrow> sint ?s = 160"
    proof (cases "sint ?s \<le> 160")
      case True
      with r have "(160 - sint ?s) mod 2 ^ 64 = 160 - sint ?s"
        by simp
      then show ?thesis by auto
    next
      case False
      have "(160 - sint ?s) mod 2 ^ 64 \<noteq> 0"
      proof
        assume "(160 - sint ?s) mod 2 ^ 64 = 0"
        then have "(2 ^ 64 :: int) dvd 160 - sint ?s" by (simp add: mod_eq_0_iff_dvd)
        moreover from False have "160 - sint ?s \<noteq> 0" by simp
        ultimately have "\<bar>2 ^ 64 :: int\<bar> \<le> \<bar>160 - sint ?s\<bar>"
          by (rule dvd_imp_le_int [rotated])
        with False r show False by simp
      qed
      with False show ?thesis by simp
    qed
    also have "\<dots> \<longleftrightarrow> ?s = 160"
    proof
      assume "sint ?s = 160"
      then have "sint ?s = sint (160 :: 32 word)" by simp
      then show "?s = 160" by (rule signed_word_eqI)
    next
      assume "?s = 160"
      then show "sint ?s = 160" by simp
    qed
    finally show ?thesis .
  qed
  show ?thesis
  proof (relation "measure (\<lambda>(native, alloc, enc, d, samples, consumed).
            2 * length samples + (if input_samples d = 160 then 1 else 0))")
    show "wf (measure (\<lambda>(native, alloc, enc, d, samples, consumed).
            2 * length samples + (if input_samples d = 160 then 1 else 0)))"
      by simp
  next
    fix native :: "'s native_encode" and alloc :: "nat \<Rightarrow> bool"
      and enc :: "'s amr_encoder_data mux_encoder" and d :: "'s amr_encoder_data"
      and samples :: "sample list" and consumed :: nat and st :: 's and out :: mux_buffer
    assume ne: "samples \<noteq> []"
    have "input_samples d = 160 \<or> 0 < min (length samples) (amr_need d)"
      using ne need_zero [of d] by (auto simp: min_def)
    then show "((native, alloc, enc\<lparr>enc_output := out\<rparr>,
            (amr_fill d samples)\<lparr>encoder := st, input_samples := 0\<rparr>,
            drop (min (length samples) (amr_need d)) samples,
            consumed + min (length samples) (amr_need d) * 2),
           native, alloc, enc, d, samples, consumed)
          \<in> measure (\<lambda>(native, alloc, enc, d, samples, consumed).
                2 * length samples + (if input_samples d = 160 then 1 else 0))"
      using ne by (auto simp: min_def)
  next
    fix native :: "'s native_encode" and alloc :: "nat \<Rightarrow> bool"
      and enc :: "'s amr_encoder_data mux_encoder" and d :: "'s amr_encoder_data"
      and samples :: "sample list" and consumed :: nat
    assume ne: "samples \<noteq> []" and nf: "input_samples (amr_fill d samples) \<noteq> 160"
    have pos: "0 < min (length samples) (amr_need d)"
    proof (rule ccontr)
      assume "\<not> 0 < min (length samples) (amr_need d)"
      with ne have z: "amr_need d = 0" by (simp add: min_def split: if_splits)
      then have "input_samples d = 160"
        by (simp add: need_zero)
      with z have "input_samples (amr_fill d samples) = 160"
        by (simp add: amr_fill_def)
      with nf show False by simp
    qed
    then show "((native, alloc, enc, amr_fill d samples,
            drop (min (length samples) (amr_need d)) samples,
            consumed + min (length samples) (amr_need d) * 2),
           native, alloc, enc, d, samples, consumed)
          \<in> measure (\<lambda>(native, alloc, enc, d, samples, consumed).
                2 * length samples + (if input_samples d = 160 then 1 else 0))"
      using ne nf by (auto simp: min_def)
  qed
qed

declare amr_encode_loop.simps [simp del]

text \<open>
  \<open>amr_encoder_encode(enc, input, input_size, input_consumed, stream_type)\<close>: \<open>input\<close>
  is the \<open>input_size\<close> bytes behind the pointer, \<open>None\<close> for \<open>NULL\<close>. The result holds the
  return code, the encoder afterwards and the value stored in \<open>*input_consumed\<close>.
\<close>

definition amr_encoder_encode ::
    "'s native_encode \<Rightarrow> (nat \<Rightarrow> bool) \<Rightarrow> 's amr_encoder_data mux_encoder \<Rightarrow> byte list option
      \<Rightarrow> int \<Rightarrow> mux_status \<times> 's amr_encoder_data mux_encoder \<times> nat option" where
  "amr_encoder_encode native alloc enc input stream_type =
     (case input of
        None \<Rightarrow> (MUX_ERROR_INVAL, enc, None)
      | Some bytes \<Rightarrow>
          (case enc_codec_data enc of
             None \<Rightarrow> (MUX_ERROR_INVAL, enc, None)
           | Some d \<Rightarrow>
               if length bytes = 0 then (MUX_OK, enc, Some 0)
               else if stream_type \<noteq> MUX_STREAM_AUDIO then
                 (case mux_leb128_write_frame alloc (enc_output enc) (Some bytes) (length bytes)
                         stream_type (enc_num_streams enc) of
                    (ret, out) \<Rightarrow>
                      if ret \<noteq> MUX_OK then (ret, enc\<lparr>enc_output := out\<rparr>, None)
                      else (MUX_OK, enc\<lparr>enc_output := out\<rparr>, Some (length bytes)))
               else
                 (case amr_encode_loop native alloc enc d (samples_of_bytes bytes) 0 of
                    (ret, enc', d', consumed) \<Rightarrow>
                      (ret, enc'\<lparr>enc_codec_data := Some d'\<rparr>,
                       if ret = MUX_OK then Some consumed else None))))"

text \<open>
  \<open>amr_encoder_finalize\<close>: a partial window is padded with zeros, encoded, and the
  packet is written when its size is positive.
\<close>

definition amr_encoder_finalize ::
    "'s native_encode \<Rightarrow> (nat \<Rightarrow> bool) \<Rightarrow> 's amr_encoder_data mux_encoder
      \<Rightarrow> mux_status \<times> 's amr_encoder_data mux_encoder" where
  "amr_encoder_finalize native alloc enc =
     (case enc_codec_data enc of
        None \<Rightarrow> (MUX_ERROR_INVAL, enc)
      | Some d \<Rightarrow>
          if 0 <s input_samples d then
            (let padded = memcpy_into (input_buf d) (nat (sint (input_samples d)))
                            (replicate (amr_need d) 0)
             in case native (encoder d) (mode d) padded of
                  (frame_size, frame_buf, st) \<Rightarrow>
                    if frame_size > 0 then
                      (case mux_leb128_write_frame alloc (enc_output enc) (Some frame_buf)
                              (nat frame_size) MUX_STREAM_AUDIO (enc_num_streams enc) of
                         (ret, out) \<Rightarrow>
                           if ret \<noteq> MUX_OK then
                             (ret, enc\<lparr>enc_output := out,
                                       enc_codec_data := Some (d\<lparr>input_buf := padded, encoder := st\<rparr>)\<rparr>)
                           else
                             (MUX_OK, enc\<lparr>enc_output := out,
                                          enc_codec_data := Some (d\<lparr>input_buf := padded, encoder := st,
                                                                   input_samples := 0\<rparr>)\<rparr>))
                    else
                      (MUX_OK, enc\<lparr>enc_codec_data := Some (d\<lparr>input_buf := padded, encoder := st,
                                                               input_samples := 0\<rparr>)\<rparr>))
          else (MUX_OK, enc))"

text \<open>
  A stand-in for the native encoder, used to instantiate the statements about the
  adapter: every frame gives a packet of two bytes, the second one counting the frames
  encoded so far.
\<close>

definition counting_encoder :: "nat native_encode" where
  "counting_encoder st md speech = (2, [0x3c, of_nat st] @ replicate 30 0, st + 1)"

text \<open>
  The encoder as \<open>mux_encoder_init\<close> and \<open>amr_encoder_init\<close> leave it when nothing
  fails and no parameter is given: codec \<open>MUX_CODEC_AMR\<close>, 8000 Hz mono, an output
  buffer of 4096 bytes, mode \<open>AMR_MODE_1220\<close>, no DTX, a zeroed and empty sample
  window; here with the stand-in encoder in its initial state.
\<close>

definition amr_encoder_after_init :: "int \<Rightarrow> nat amr_encoder_data mux_encoder" where
  "amr_encoder_after_init ns =
     \<lparr>enc_codec_type = 8, enc_ops = Some 8, enc_sample_rate = 8000, enc_num_channels = 1,
      enc_num_streams = ns, enc_output = snd (mux_buffer_init alloc_always 4096),
      enc_codec_data = Some \<lparr>encoder = 0, mode = 7, dtx = 0, input_buf = replicate 160 0,
                             input_samples = 0\<rparr>\<rparr>"

section \<open>Properties of the LEB128 varints\<close>

lemma mask7_numeral: "(0x7f :: 'a::len word) = mask 7"
  by (simp add: mask_eq_exp_minus_1)

lemma bit_128_int: "bit (128 :: int) n \<longleftrightarrow> n = 7"
proof -
  have "(128 :: int) = 2 ^ 7" by simp
  then show ?thesis by (simp only: bit_exp_iff) auto
qed

lemma low7_of_last_byte: "ucast ((ucast ((v::u64) AND 0x7f) :: byte) AND 0x7f) = (v AND 0x7f)"
  unfolding mask7_numeral by (rule bit_eqI) (auto simp: bit_simps)

lemma low7_of_cont_byte: "ucast ((ucast ((v::u64) AND 0x7f) OR 0x80 :: byte) AND 0x7f) = (v AND 0x7f)"
  unfolding mask7_numeral by (rule bit_eqI) (auto simp: bit_simps bit_128_int)

lemma last_byte_no_cont: "(ucast ((v::u64) AND 0x7f) :: byte) AND 0x80 = 0"
  unfolding mask7_numeral by (rule bit_eqI) (auto simp: bit_simps bit_128_int)

lemma cont_byte_cont: "(ucast ((v::u64) AND 0x7f) OR 0x80 :: byte) AND 0x80 \<noteq> 0"
proof -
  have "bit ((ucast (v AND 0x7f) OR 0x80 :: byte) AND 0x80) 7"
    unfolding mask7_numeral by (auto simp: bit_simps bit_128_int)
  then show ?thesis by auto
qed

lemma or_groups: "r OR push_bit s ((v::u64) AND 0x7f) OR push_bit (s + 7) (drop_bit 7 v) = r OR push_bit s v"
proof -
  have "push_bit s (v AND mask 7) OR push_bit (s + 7) (drop_bit 7 v) = push_bit s v"
  proof (rule bit_eqI)
    fix n
    assume "possible_bit TYPE(u64) n"
    show "bit (push_bit s (v AND mask 7) OR push_bit (s + 7) (drop_bit 7 v)) n = bit (push_bit s v) n"
    proof (cases "n - s < 7")
      case True
      then show ?thesis by (auto simp: bit_simps)
    next
      case False
      then have "7 + (n - (s + 7)) = n - s" "s + 7 \<le> n" by arith+
      then show ?thesis by (auto simp: bit_simps)
    qed
  qed
  then show ?thesis by (simp only: or.assoc mask7_numeral)
qed

lemma or_groups_left:
  "(r OR push_bit s ((v::u64) AND 0x7f)) OR push_bit (s + 7) (drop_bit 7 v) = r OR push_bit s v"
  using or_groups [of r s v] by (simp only: or.assoc)

lemma unat_drop7: "unat (drop_bit 7 (v::u64)) = unat v div 128"
  using unat_drop_bit_eq [of 7 v] by (simp only: drop_bit_eq_div [of 7 "unat v"]) simp

lemma drop7_zero_iff: "drop_bit 7 (v::u64) = 0 \<longleftrightarrow> unat v < 128"
proof -
  have "drop_bit 7 v = 0 \<longleftrightarrow> unat (drop_bit 7 v) = 0" by (simp add: unat_eq_0)
  then show ?thesis by (simp add: unat_drop7 div_eq_0_iff)
qed

lemma encode_loop_length:
  "unat v < 2 ^ (7 * k) \<Longrightarrow> 0 < k \<Longrightarrow> count + k \<le> output_size \<Longrightarrow>
   \<exists>bs. leb128_encode_loop v count output_size = Inr bs \<and> 0 < length bs \<and> length bs \<le> k"
proof (induction k arbitrary: v count)
  case 0
  then show ?case by simp
next
  case (Suc k)
  show ?case
  proof (cases "drop_bit 7 v = 0")
    case True
    with Suc.prems show ?thesis
      by (subst leb128_encode_loop.simps) simp
  next
    case False
    then have big: "128 \<le> unat v" by (simp add: drop7_zero_iff)
    have "k \<noteq> 0"
    proof
      assume "k = 0"
      with Suc.prems(1) have "unat v < 128" by simp
      with big show False by simp
    qed
    then have kpos: "0 < k" by simp
    have "unat v < 128 * 2 ^ (7 * k)"
      using Suc.prems(1) by (simp add: power_add)
    then have "unat (drop_bit 7 v) < 2 ^ (7 * k)"
      by (simp add: unat_drop7 less_mult_imp_div_less mult.commute)
    moreover have "(count + 1) + k \<le> output_size" using Suc.prems(3) by simp
    ultimately obtain bs where bs: "leb128_encode_loop (drop_bit 7 v) (count + 1) output_size = Inr bs"
      "0 < length bs" "length bs \<le> k"
      using Suc.IH [OF _ kpos, of "drop_bit 7 v" "count + 1"] by blast
    with False Suc.prems(3) show ?thesis
      by (subst leb128_encode_loop.simps) simp
  qed
qed

lemma decode_encode_loop:
  "leb128_encode_loop v count output_size = Inr bs \<Longrightarrow> shift + 7 * length bs < 64 \<Longrightarrow>
   leb128_decode_loop (bs @ rest) r shift c = Inr (r OR push_bit shift v, c + length bs)"
proof (induction v count output_size arbitrary: bs r shift c rule: leb128_encode_loop.induct)
  case (1 v count output_size)
  from "1.prems"(1) have room: "count < output_size"
    by (subst (asm) leb128_encode_loop.simps) (simp split: if_splits)
  show ?case
  proof (cases "drop_bit 7 v = 0")
    case True
    with "1.prems"(1) room have bs: "bs = [ucast (v AND 0x7f)]"
      by (subst (asm) leb128_encode_loop.simps) simp
    have low: "v AND 0x7f = v"
      using True or_groups [of 0 0 v] by simp
    from bs "1.prems"(2)
    have "leb128_decode_loop (bs @ rest) r shift c = Inr (r OR push_bit shift (v AND 0x7f), c + 1)"
      by (simp add: last_byte_no_cont low7_of_last_byte)
    then show ?thesis
      by (simp only: low) (simp add: bs)
  next
    case False
    with "1.prems"(1) room obtain tl where tl:
      "leb128_encode_loop (drop_bit 7 v) (count + 1) output_size = Inr tl"
      "bs = (ucast (v AND 0x7f) OR 0x80) # tl"
      by (subst (asm) leb128_encode_loop.simps) (auto split: sum.splits)
    from tl(2) "1.prems"(2) have sh: "(shift + 7) + 7 * length tl < 64" by simp
    have ih: "leb128_decode_loop (tl @ rest) R (shift + 7) (c + 1)
          = Inr (R OR push_bit (shift + 7) (drop_bit 7 v), c + 1 + length tl)" for R
      using "1.IH" [OF _ False tl(1) sh] room by simp
    have "leb128_decode_loop (bs @ rest) r shift c
          = leb128_decode_loop (tl @ rest) (r OR push_bit shift (v AND 0x7f)) (shift + 7) (c + 1)"
      using sh by (simp only: tl(2) append_Cons leb128_decode_loop.simps cont_byte_cont
          low7_of_cont_byte) simp
    also have "\<dots> = Inr ((r OR push_bit shift (v AND 0x7f)) OR push_bit (shift + 7) (drop_bit 7 v),
          c + 1 + length tl)"
      by (rule ih)
    also have "\<dots> = Inr (r OR push_bit shift v, c + length bs)"
      by (simp only: or_groups_left) (simp add: tl(2))
    finally show ?thesis .
  qed
qed

lemma encode_loop_cont:
  "leb128_encode_loop v count output_size = Inr bs \<Longrightarrow>
   bs \<noteq> [] \<and> (\<forall>b \<in> set (butlast bs). b AND 0x80 \<noteq> 0) \<and> last bs AND 0x80 = 0"
proof (induction v count output_size arbitrary: bs rule: leb128_encode_loop.induct)
  case (1 v count output_size)
  from "1.prems"(1) have room: "count < output_size"
    by (subst (asm) leb128_encode_loop.simps) (simp split: if_splits)
  show ?case
  proof (cases "drop_bit 7 v = 0")
    case True
    with "1.prems"(1) room have bs: "bs = [ucast (v AND 0x7f)]"
      by (subst (asm) leb128_encode_loop.simps) simp
    then show ?thesis by (simp add: last_byte_no_cont)
  next
    case False
    with "1.prems"(1) room obtain tl where tl:
      "leb128_encode_loop (drop_bit 7 v) (count + 1) output_size = Inr tl"
      "bs = (ucast (v AND 0x7f) OR 0x80) # tl"
      by (subst (asm) leb128_encode_loop.simps) (auto split: sum.splits)
    from "1.IH" [OF _ False tl(1)] room
    have "tl \<noteq> [] \<and> (\<forall>b \<in> set (butlast tl). b AND 0x80 \<noteq> 0) \<and> last tl AND 0x80 = 0" by simp
    with tl(2) show ?thesis by (simp add: cont_byte_cont)
  qed
qed

lemma decode_loop_all_cont:
  "(\<forall>b \<in> set bs. b AND 0x80 \<noteq> 0) \<Longrightarrow> shift + 7 * length bs < 64 \<Longrightarrow>
   leb128_decode_loop bs r shift c = Inl MUX_ERROR_AGAIN"
  by (induction bs arbitrary: r shift c) simp_all

lemma encode_ok_10:
  "\<exists>bs. mux_leb128_encode v True 10 = Inr bs \<and> 0 < length bs \<and> length bs \<le> 10"
proof -
  have "unat v < 2 ^ 64" using unsigned_less [of v] by simp
  then have "unat v < 2 ^ (7 * 10)" by simp
  from encode_loop_length [OF this, of 0 10] show ?thesis
    by (simp add: mux_leb128_encode_def)
qed

lemma encode_len9:
  assumes "v < 2 ^ 63"
  shows "\<exists>bs. mux_leb128_encode v True 10 = Inr bs \<and> 0 < length bs \<and> length bs \<le> 9"
proof -
  from assms have "unat v < 2 ^ 63" by (simp add: word_less_nat_alt)
  then have "unat v < 2 ^ (7 * 9)" by simp
  from encode_loop_length [OF this, of 0 10] show ?thesis
    by (simp add: mux_leb128_encode_def)
qed

lemma leb128_roundtrip_below:
  assumes "v < 2 ^ 63"
  shows "\<exists>bs. mux_leb128_encode v True 10 = Inr bs \<and> length bs \<le> 9 \<and>
           mux_leb128_decode (Some (bs @ rest)) = Inr (v, length bs)"
proof -
  from encode_len9 [OF assms] obtain bs where
    bs: "mux_leb128_encode v True 10 = Inr bs" "length bs \<le> 9" by blast
  then have "leb128_encode_loop v 0 10 = Inr bs" by (simp add: mux_leb128_encode_def)
  from decode_encode_loop [OF this, of 0 rest 0 0] bs(2)
  have "leb128_decode_loop (bs @ rest) 0 0 0 = Inr (v, length bs)" by simp
  with bs show ?thesis by (simp add: mux_leb128_decode_def)
qed

lemma encode_loop_length_lower:
  "2 ^ (7 * k) \<le> unat v \<Longrightarrow> leb128_encode_loop v count output_size = Inr bs \<Longrightarrow> k < length bs"
proof (induction k arbitrary: v count bs)
  case 0
  from encode_loop_cont [OF "0.prems"(2)] show ?case by simp
next
  case (Suc k)
  from Suc.prems(2) have room: "count < output_size"
    by (subst (asm) leb128_encode_loop.simps) (simp split: if_splits)
  have "(128 :: nat) * 2 ^ (7 * k) \<le> unat v"
    using Suc.prems(1) by (simp add: power_add)
  then have big: "2 ^ (7 * k) \<le> unat v div 128"
    by (simp add: less_eq_div_iff_mult_less_eq mult.commute)
  then have "unat v div 128 \<noteq> 0"
    by (metis not_one_le_zero one_le_numeral one_le_power order_trans)
  then have nz: "drop_bit 7 v \<noteq> 0"
    by (simp add: drop7_zero_iff div_eq_0_iff)
  with Suc.prems(2) room obtain tl where tl:
    "leb128_encode_loop (drop_bit 7 v) (count + 1) output_size = Inr tl"
    "bs = (ucast (v AND 0x7f) OR 0x80) # tl"
    by (subst (asm) leb128_encode_loop.simps) (auto split: sum.splits)
  from big have "2 ^ (7 * k) \<le> unat (drop_bit 7 v)" by (simp add: unat_drop7)
  from Suc.IH [OF this tl(1)] tl(2) show ?case by simp
qed

lemma decode_loop_overlong:
  "bs \<noteq> [] \<Longrightarrow> 64 \<le> shift + 7 * length bs \<Longrightarrow> \<forall>b \<in> set (butlast bs). b AND 0x80 \<noteq> 0 \<Longrightarrow>
   leb128_decode_loop bs r shift c = Inl MUX_ERROR_INVAL"
proof (induction bs arbitrary: r shift c)
  case Nil
  then show ?case by simp
next
  case (Cons b rest)
  show ?case
  proof (cases "64 \<le> shift + 7")
    case True
    then show ?thesis by simp
  next
    case False
    with Cons.prems(2) have ne: "rest \<noteq> []" by auto
    with Cons.prems(3) have cont: "b AND 0x80 \<noteq> 0" and rest: "\<forall>b \<in> set (butlast rest). b AND 0x80 \<noteq> 0"
      by simp_all
    from Cons.prems(2) have "64 \<le> (shift + 7) + 7 * length rest" by simp
    from Cons.IH [OF ne this rest] False cont show ?thesis by simp
  qed
qed

lemma leb128_roundtrip_fails_above:
  assumes "2 ^ 63 \<le> v"
  shows "\<exists>bs. mux_leb128_encode v True 10 = Inr bs \<and> length bs = 10 \<and>
           mux_leb128_decode (Some bs) = Inl MUX_ERROR_INVAL"
proof -
  from encode_ok_10 [of v] obtain bs where
    bs: "mux_leb128_encode v True 10 = Inr bs" "length bs \<le> 10" by blast
  then have loop: "leb128_encode_loop v 0 10 = Inr bs" by (simp add: mux_leb128_encode_def)
  from assms have "2 ^ 63 \<le> unat v" by (simp add: word_le_nat_alt)
  then have "2 ^ (7 * 9) \<le> unat v" by simp
  from encode_loop_length_lower [OF this loop] bs(2) have len: "length bs = 10" by simp
  then have "bs \<noteq> []" "64 \<le> 0 + 7 * length bs" by auto
  from decode_loop_overlong [OF this] encode_loop_cont [OF loop]
  have "leb128_decode_loop bs 0 0 0 = Inl MUX_ERROR_INVAL" by simp
  with bs(1) len show ?thesis by (simp add: mux_leb128_decode_def)
qed

lemma decode_ten_continuation_bytes:
  "mux_leb128_decode (Some [0x80, 0x80, 0x80, 0x80, 0x80, 0x80, 0x80, 0x80, 0x80, 0x80]) =
     Inl MUX_ERROR_INVAL"
  by (simp add: mux_leb128_decode_def)

text \<open>
  Claim C1: for every 64-bit value \<open>v\<close>, \<open>mux_leb128_encode\<close> produces at most 10
  bytes and \<open>mux_leb128_decode\<close> of those bytes succeeds with \<open>(v, number of bytes)\<close>.
  The first half holds (\<open>encode_ok_10\<close>) and the round trip holds below \<open>2^63\<close>
  (\<open>leb128_roundtrip_below\<close>). From \<open>2^63\<close> on the encoder writes ten bytes, and the
  decoder, whose \<open>shift\<close> has reached 70 after the tenth byte, returns
  \<open>MUX_ERROR_INVAL\<close> although that byte ends the number
  (\<open>leb128_roundtrip_fails_above\<close>). The theorem runs encoder and decoder at
  \<open>v = 2^63\<close>.
\<close>

theorem leb128_roundtrip_fails_at_2_63:
  "mux_leb128_encode 0x8000000000000000 True 10 =
     Inr [0x80, 0x80, 0x80, 0x80, 0x80, 0x80, 0x80, 0x80, 0x80, 0x01] \<and>
   mux_leb128_decode (Some [0x80, 0x80, 0x80, 0x80, 0x80, 0x80, 0x80, 0x80, 0x80, 0x01]) =
     Inl MUX_ERROR_INVAL"
  by (simp add: mux_leb128_encode_def mux_leb128_decode_def leb128_encode_loop.simps)

section \<open>Properties of the byte buffer\<close>

lemma init_inv: "buf_inv (snd (mux_buffer_init alloc n))"
  by (simp add: mux_buffer_init_def buf_inv_def Let_def)

lemma ensure_capacity_inv:
  "buf_inv buf \<Longrightarrow> buf_inv (snd (mux_buffer_ensure_capacity alloc buf needed))"
  by (auto simp: mux_buffer_ensure_capacity_def buf_inv_def Let_def)

lemma ensure_capacity_fields:
  "size_buf (snd (mux_buffer_ensure_capacity alloc buf needed)) = size_buf buf"
  "read_pos (snd (mux_buffer_ensure_capacity alloc buf needed)) = read_pos buf"
  by (simp_all add: mux_buffer_ensure_capacity_def Let_def)

lemma ensure_capacity_ok:
  "fst (mux_buffer_ensure_capacity alloc buf needed) = MUX_OK \<Longrightarrow>
   needed \<le> capacity (snd (mux_buffer_ensure_capacity alloc buf needed))"
  by (auto simp: mux_buffer_ensure_capacity_def Let_def split: if_splits)

lemma write_inv: "buf_inv buf \<Longrightarrow> buf_inv (snd (mux_buffer_write alloc buf src))"
proof (cases src)
  case None
  assume "buf_inv buf"
  with None show ?thesis by (simp add: mux_buffer_write_def)
next
  case (Some bytes)
  assume inv: "buf_inv buf"
  obtain ret buf' where e: "mux_buffer_ensure_capacity alloc buf (size_buf buf + length bytes) = (ret, buf')"
    by (cases "mux_buffer_ensure_capacity alloc buf (size_buf buf + length bytes)")
  from ensure_capacity_inv [OF inv, of alloc "size_buf buf + length bytes"] e
  have inv': "buf_inv buf'" by simp
  from ensure_capacity_fields [of alloc buf "size_buf buf + length bytes"] e
  have f: "size_buf buf' = size_buf buf" "read_pos buf' = read_pos buf" by simp_all
  from ensure_capacity_ok [of alloc buf "size_buf buf + length bytes"] e
  have c: "ret = MUX_OK \<Longrightarrow> size_buf buf + length bytes \<le> capacity buf'" by simp
  show ?thesis
    using Some inv inv' f c e by (auto simp: mux_buffer_write_def buf_inv_def)
qed

lemma read_inv: "buf_inv buf \<Longrightarrow> buf_inv (br_buf (mux_buffer_read buf dst n))"
  by (auto simp: mux_buffer_read_def buf_inv_def size_t_sub_def Let_def)

lemma clear_inv: "buf_inv (mux_buffer_clear buf)"
  by (simp add: mux_buffer_clear_def buf_inv_def)

lemma apply_buf_op_inv: "buf_inv buf \<Longrightarrow> buf_inv (apply_buf_op buf op)"
  by (cases op) (simp_all add: write_inv read_inv clear_inv)

lemma run_buf_ops_inv: "buf_inv buf \<Longrightarrow> buf_inv (run_buf_ops buf ops)"
  unfolding run_buf_ops_def
  by (induction ops arbitrary: buf) (simp_all add: apply_buf_op_inv)

text \<open>
  Claim C8: the invariant \<open>read_pos \<le> size \<le> capacity\<close> holds after
  \<open>mux_buffer_init\<close> (whether or not the allocation succeeds) and is preserved by
  every write, read and clear, hence by every sequence of them, whatever the allocator
  answers.
\<close>

theorem buffer_invariant_preserved:
  "buf_inv (snd (mux_buffer_init alloc n)) \<and>
   (buf_inv buf \<longrightarrow> buf_inv (apply_buf_op buf op) \<and> buf_inv (run_buf_ops buf ops)) \<and>
   buf_inv (run_buf_ops (snd (mux_buffer_init alloc n)) ops)"
  by (simp add: init_inv apply_buf_op_inv run_buf_ops_inv)

theorem buffer_invariant_preserved_witness:
  "buf_inv \<lparr>data = [1, 2, 3, 0], size_buf = 3, capacity = 4, read_pos = 1\<rparr> \<and>
   buf_inv (apply_buf_op \<lparr>data = [1, 2, 3, 0], size_buf = 3, capacity = 4, read_pos = 1\<rparr>
              (Op_write (\<lambda>n. True) (Some [7, 8]))) \<and>
   buf_inv (run_buf_ops \<lparr>data = [1, 2, 3, 0], size_buf = 3, capacity = 4, read_pos = 1\<rparr>
              [Op_read True 1, Op_write (\<lambda>n. n < 6) (Some [7, 8]), Op_clear])"
proof -
  have h: "buf_inv \<lparr>data = [1, 2, 3, 0], size_buf = 3, capacity = 4, read_pos = 1\<rparr>"
    by (simp add: buf_inv_def)
  show ?thesis
    using h buffer_invariant_preserved [of "\<lambda>n. True" 4
        "\<lparr>data = [1, 2, 3, 0], size_buf = 3, capacity = 4, read_pos = 1\<rparr>"
        "Op_write (\<lambda>n. True) (Some [7, 8])"
        "[Op_read True 1, Op_write (\<lambda>n. n < 6) (Some [7, 8]), Op_clear]"]
    by simp
qed

text \<open>Buffers that own storage: what the operations do to the unread bytes.\<close>

lemma unread_wf: "buf_wf buf \<Longrightarrow> unread buf = take (size_buf buf - read_pos buf) (drop (read_pos buf) (data buf))"
  by (simp add: unread_def buf_wf_def buf_inv_def size_t_sub_def)

lemma length_unread: "buf_wf buf \<Longrightarrow> length (unread buf) = size_buf buf - read_pos buf"
  by (auto simp: unread_def buf_wf_def buf_inv_def size_t_sub_def)

lemma avail_wf: "buf_wf buf \<Longrightarrow> size_t_sub (size_buf buf) (read_pos buf) = length (unread buf)"
  by (auto simp: unread_def buf_wf_def buf_inv_def size_t_sub_def)

lemma init_wf:
  "alloc n \<Longrightarrow> 0 < n \<Longrightarrow>
   fst (mux_buffer_init alloc n) = MUX_OK \<and> buf_wf (snd (mux_buffer_init alloc n)) \<and>
   unread (snd (mux_buffer_init alloc n)) = []"
  by (simp add: mux_buffer_init_def buf_wf_def buf_inv_def unread_def size_t_sub_def)

lemma ensure_capacity_wf:
  assumes "buf_wf buf" "\<forall>n. alloc n"
  shows "fst (mux_buffer_ensure_capacity alloc buf needed) = MUX_OK"
    and "buf_wf (snd (mux_buffer_ensure_capacity alloc buf needed))"
    and "needed \<le> capacity (snd (mux_buffer_ensure_capacity alloc buf needed))"
    and "size_buf (snd (mux_buffer_ensure_capacity alloc buf needed)) = size_buf buf"
    and "read_pos (snd (mux_buffer_ensure_capacity alloc buf needed)) = read_pos buf"
    and "take (size_buf buf) (data (snd (mux_buffer_ensure_capacity alloc buf needed))) = take (size_buf buf) (data buf)"
  using assms
  by (auto simp: mux_buffer_ensure_capacity_def buf_wf_def buf_inv_def Let_def drop_bit_eq_div)

lemma write_wf:
  assumes wf: "buf_wf buf" and al: "\<forall>n. alloc n"
  shows "fst (mux_buffer_write alloc buf (Some bytes)) = MUX_OK \<and>
         buf_wf (snd (mux_buffer_write alloc buf (Some bytes))) \<and>
         unread (snd (mux_buffer_write alloc buf (Some bytes))) = unread buf @ bytes"
proof (cases "bytes = []")
  case True
  with wf show ?thesis by (simp add: mux_buffer_write_def)
next
  case False
  let ?needed = "size_buf buf + length bytes"
  obtain ret buf' where e: "mux_buffer_ensure_capacity alloc buf ?needed = (ret, buf')"
    by (cases "mux_buffer_ensure_capacity alloc buf ?needed")
  from ensure_capacity_wf [OF wf al, of ?needed] e
  have r: "ret = MUX_OK" and wf': "buf_wf buf'" and cap: "?needed \<le> capacity buf'"
    and sz: "size_buf buf' = size_buf buf" and rp: "read_pos buf' = read_pos buf"
    and dt: "take (size_buf buf) (data buf') = take (size_buf buf) (data buf)"
    by simp_all
  let ?res = "buf'\<lparr>data := memcpy_into (data buf') (size_buf buf') bytes,
                  size_buf := size_buf buf' + length bytes\<rparr>"
  have res: "mux_buffer_write alloc buf (Some bytes) = (MUX_OK, ?res)"
    using False e r by (simp add: mux_buffer_write_def)
  from wf' have len: "length (data buf') = capacity buf'" by (simp add: buf_wf_def)
  from wf have rs: "read_pos buf \<le> size_buf buf" by (simp add: buf_wf_def buf_inv_def)
  have wfres: "buf_wf ?res"
    using wf' cap sz rp len by (auto simp: buf_wf_def buf_inv_def memcpy_into_def)
  have "unread ?res = take (size_buf buf + length bytes - read_pos buf)
          (drop (read_pos buf) (take (size_buf buf) (data buf') @ bytes @ drop (size_buf buf + length bytes) (data buf')))"
    using rs sz rp by (simp add: unread_def size_t_sub_def memcpy_into_def)
  also have "\<dots> = drop (read_pos buf) (take (size_buf buf) (data buf')) @ bytes"
  proof -
    from False have "0 < length bytes" by simp
    with cap have "size_buf buf < capacity buf'" by arith
    with rs len show ?thesis by (simp add: min_def)
  qed
  also have "\<dots> = unread buf @ bytes"
    using wf dt by (simp add: unread_wf drop_take)
  finally show ?thesis using res wfres by simp
qed

section \<open>Properties of the frame codec in mux mode\<close>

lemma read_frame_mux_unfold:
  assumes wf: "buf_wf input" and ns: "num_streams \<noteq> 1"
  shows "mux_leb128_read_frame input payload payload_capacity num_streams =
     (case mux_leb128_decode (Some (unread input)) of
        Inl e \<Rightarrow> \<lparr>fr_status = e, fr_input = input, fr_payload = None,
                 fr_payload_size = None, fr_stream_type = None\<rparr>
      | Inr (v, n) \<Rightarrow>
          if length (unread input) < n + unat (drop_bit 1 v) then
            \<lparr>fr_status = MUX_ERROR_AGAIN, fr_input = input, fr_payload = None,
             fr_payload_size = None, fr_stream_type = None\<rparr>
          else if payload \<and> payload_capacity < unat (drop_bit 1 v) then
            \<lparr>fr_status = MUX_ERROR_INVAL, fr_input = input, fr_payload = None,
             fr_payload_size = Some (unat (drop_bit 1 v)), fr_stream_type = Some (uint (v AND 1))\<rparr>
          else
            \<lparr>fr_status = MUX_OK,
             fr_input = (if read_pos input + n + unat (drop_bit 1 v) = size_buf input
                         then input\<lparr>read_pos := 0, size_buf := 0\<rparr>
                         else input\<lparr>read_pos := read_pos input + n + unat (drop_bit 1 v)\<rparr>),
             fr_payload = (if payload \<and> 0 < unat (drop_bit 1 v)
                           then Some (take (unat (drop_bit 1 v)) (drop n (unread input))) else None),
             fr_payload_size = Some (unat (drop_bit 1 v)),
             fr_stream_type = Some (uint (v AND 1))\<rparr>)"
proof -
  from wf have cap: "capacity input \<noteq> 0" by (simp add: buf_wf_def)
  from wf have av: "size_t_sub (size_buf input) (read_pos input) = length (unread input)"
    by (rule avail_wf)
  have un: "take (length (unread input)) (drop (read_pos input) (data input)) = unread input"
    using av by (simp add: unread_def)
  have pl: "n + sz \<le> length (unread input) \<Longrightarrow>
        take sz (drop (read_pos input + n) (data input)) = take sz (drop n (unread input))" for n sz
  proof -
    assume a: "n + sz \<le> length (unread input)"
    have "take sz (drop n (unread input)) =
          take sz (drop n (take (size_buf input - read_pos input) (drop (read_pos input) (data input))))"
      using wf by (simp add: unread_wf)
    also have "\<dots> = take sz (drop (read_pos input + n) (data input))"
      using a wf by (simp add: drop_take length_unread min_def add.commute)
    finally show ?thesis by simp
  qed
  show ?thesis
    using ns cap
    by (auto simp: mux_leb128_read_frame_def Let_def av un pl not_less add.assoc
             split: sum.splits prod.splits)
qed


lemma decode_header_incomplete:
  assumes "header_incomplete u"
  shows "mux_leb128_decode (Some u) = Inl MUX_ERROR_AGAIN"
proof -
  from assms have "\<forall>b \<in> set u. b AND 0x80 \<noteq> 0" and "0 + 7 * length u < 64"
    by (simp_all add: header_incomplete_def list_all_iff)
  then show ?thesis
    unfolding mux_leb128_decode_def using decode_loop_all_cont [of u 0 0 0] by simp
qed

lemma read_frame_incomplete_again_aux:
  assumes "buf_wf input"
    and "header_incomplete (unread input) \<or> payload_incomplete (unread input)"
  shows "mux_leb128_read_frame input payload payload_capacity 2 =
           \<lparr>fr_status = MUX_ERROR_AGAIN, fr_input = input, fr_payload = None,
            fr_payload_size = None, fr_stream_type = None\<rparr>"
  using assms(2)
proof
  assume "header_incomplete (unread input)"
  then show ?thesis
    by (simp add: read_frame_mux_unfold [OF assms(1)] decode_header_incomplete)
next
  assume "payload_incomplete (unread input)"
  then show ?thesis
    by (auto simp: read_frame_mux_unfold [OF assms(1)] payload_incomplete_def
             split: sum.splits prod.splits)
qed



lemma read_frame_ok:
  assumes wf: "buf_wf input"
    and dec: "mux_leb128_decode (Some (unread input)) = Inr (v, n)"
    and complete: "n + unat (drop_bit 1 v) \<le> length (unread input)"
    and room: "\<not> (payload \<and> payload_capacity < unat (drop_bit 1 v))"
  shows "fr_status (mux_leb128_read_frame input payload payload_capacity 2) = MUX_OK"
    and "fr_payload_size (mux_leb128_read_frame input payload payload_capacity 2) = Some (unat (drop_bit 1 v))"
    and "fr_stream_type (mux_leb128_read_frame input payload payload_capacity 2) = Some (uint (v AND 1))"
    and "fr_payload (mux_leb128_read_frame input payload payload_capacity 2) =
           (if payload \<and> 0 < unat (drop_bit 1 v)
            then Some (take (unat (drop_bit 1 v)) (drop n (unread input))) else None)"
    and "buf_wf (fr_input (mux_leb128_read_frame input payload payload_capacity 2))"
    and "unread (fr_input (mux_leb128_read_frame input payload payload_capacity 2)) =
           drop (n + unat (drop_bit 1 v)) (unread input)"
proof -
  let ?sz = "unat (drop_bit 1 v)"
  let ?r = "mux_leb128_read_frame input payload payload_capacity 2"
  from complete have nl: "\<not> length (unread input) < n + ?sz" by simp
  show "fr_status ?r = MUX_OK" "fr_payload_size ?r = Some ?sz"
       "fr_stream_type ?r = Some (uint (v AND 1))"
       "fr_payload ?r = (if payload \<and> 0 < ?sz then Some (take ?sz (drop n (unread input))) else None)"
    using room nl by (simp_all add: read_frame_mux_unfold [OF wf] dec)
  have inp: "fr_input ?r = (if read_pos input + n + ?sz = size_buf input
                         then input\<lparr>read_pos := 0, size_buf := 0\<rparr>
                         else input\<lparr>read_pos := read_pos input + n + ?sz\<rparr>)"
    using room nl by (auto simp: read_frame_mux_unfold [OF wf] dec)
  from wf have lu: "length (unread input) = size_buf input - read_pos input"
    by (rule length_unread)
  from wf have inv: "read_pos input \<le> size_buf input" "size_buf input \<le> capacity input"
    "length (data input) = capacity input" "0 < capacity input"
    by (simp_all add: buf_wf_def buf_inv_def)
  from complete lu inv have le: "read_pos input + n + ?sz \<le> size_buf input" by arith
  show "buf_wf (fr_input ?r)"
    using inv le by (simp add: inp buf_wf_def buf_inv_def)
  show "unread (fr_input ?r) = drop (n + ?sz) (unread input)"
  proof (cases "read_pos input + n + ?sz = size_buf input")
    case True
    then have "n + ?sz = length (unread input)" using lu inv by arith
    with True show ?thesis by (simp add: inp unread_def size_t_sub_def)
  next
    case False
    with le have lt: "read_pos input + n + ?sz < size_buf input" by simp
    have "unread (input\<lparr>read_pos := read_pos input + n + ?sz\<rparr>) =
          take (size_buf input - (read_pos input + n + ?sz)) (drop (read_pos input + n + ?sz) (data input))"
      using lt by (simp add: unread_def size_t_sub_def)
    also have "\<dots> = drop (n + ?sz) (unread input)"
      using wf by (simp add: unread_wf drop_take ac_simps)
    finally show ?thesis using False by (simp add: inp)
  qed
qed

text \<open>
  Claim C4: in dual-stream mode, when a complete frame is unread in the input buffer and
  the capacity of the caller's destination is below the payload length of that frame,
  \<open>mux_leb128_read_frame\<close> returns \<open>MUX_ERROR_INVAL\<close>, has stored the payload length
  in \<open>*payload_size\<close> (and the stream bit in \<open>*stream_type\<close>) and returns the input
  buffer as it was; a second call with a destination of that size succeeds and delivers
  the payload. The destination is a non-null pointer here: with \<open>payload = NULL\<close> the
  source skips the capacity check.
\<close>

theorem read_frame_destination_too_small:
  assumes "buf_wf input"
    and "mux_leb128_decode (Some (unread input)) = Inr (v, n)"
    and "n + unat (drop_bit 1 v) \<le> length (unread input)"
    and "payload_capacity < unat (drop_bit 1 v)"
  shows "mux_leb128_read_frame input True payload_capacity 2 =
           \<lparr>fr_status = MUX_ERROR_INVAL, fr_input = input, fr_payload = None,
            fr_payload_size = Some (unat (drop_bit 1 v)),
            fr_stream_type = Some (uint (v AND 1))\<rparr> \<and>
         fr_status (mux_leb128_read_frame input True (unat (drop_bit 1 v)) 2) = MUX_OK \<and>
         fr_payload (mux_leb128_read_frame input True (unat (drop_bit 1 v)) 2) =
           Some (take (unat (drop_bit 1 v)) (drop n (unread input)))"
proof -
  from assms(4) have pos: "0 < unat (drop_bit 1 v)" by simp
  have "mux_leb128_read_frame input True payload_capacity 2 =
           \<lparr>fr_status = MUX_ERROR_INVAL, fr_input = input, fr_payload = None,
            fr_payload_size = Some (unat (drop_bit 1 v)),
            fr_stream_type = Some (uint (v AND 1))\<rparr>"
    using assms(3,4) by (simp add: read_frame_mux_unfold [OF assms(1)] assms(2))
  moreover have "\<not> (True \<and> unat (drop_bit 1 v) < unat (drop_bit 1 v))" by simp
  note read_frame_ok(1,4) [OF assms(1) assms(2) assms(3) this]
  ultimately show ?thesis using pos by simp
qed

theorem read_frame_destination_too_small_witness:
  "buf_wf \<lparr>data = [0x07, 0x41, 0x42, 0x43, 0, 0, 0, 0], size_buf = 4, capacity = 8, read_pos = 0\<rparr> \<and>
   mux_leb128_read_frame \<lparr>data = [0x07, 0x41, 0x42, 0x43, 0, 0, 0, 0], size_buf = 4, capacity = 8, read_pos = 0\<rparr> True 2 2 =
     \<lparr>fr_status = MUX_ERROR_INVAL,
      fr_input = \<lparr>data = [0x07, 0x41, 0x42, 0x43, 0, 0, 0, 0], size_buf = 4, capacity = 8, read_pos = 0\<rparr>,
      fr_payload = None, fr_payload_size = Some 3, fr_stream_type = Some 1\<rparr> \<and>
   fr_payload (mux_leb128_read_frame \<lparr>data = [0x07, 0x41, 0x42, 0x43, 0, 0, 0, 0], size_buf = 4, capacity = 8, read_pos = 0\<rparr> True 3 2) =
     Some [0x41, 0x42, 0x43]"
proof -
  let ?b = "\<lparr>data = [0x07, 0x41, 0x42, 0x43, 0, 0, 0, 0 :: byte], size_buf = 4, capacity = 8, read_pos = 0\<rparr>"
  have h1: "buf_wf ?b"
    by (simp add: buf_wf_def buf_inv_def)
  have u: "unread ?b = [0x07, 0x41, 0x42, 0x43]"
    by (simp add: unread_def size_t_sub_def)
  have h2: "mux_leb128_decode (Some (unread ?b)) = Inr (7, 1)"
    by (simp add: u mux_leb128_decode_def)
  have sz: "unat (drop_bit 1 (7 :: u64)) = 3"
    by (simp add: drop_bit_eq_div)
  have h3: "1 + unat (drop_bit 1 (7 :: u64)) \<le> length (unread ?b)"
    by (simp add: u sz)
  have h4: "2 < unat (drop_bit 1 (7 :: u64))"
    by (simp add: sz)
  have st: "uint ((7 :: u64) AND 1) = 1"
    by simp
  show ?thesis
    using read_frame_destination_too_small [OF h1 h2 h3 h4] h1 by (simp add: sz u st)
qed

lemma and_mask_below_push: "(push_bit k (x :: u64) OR y) AND mask k = y AND mask k"
  by (rule bit_eqI) (auto simp: bit_simps)

lemma drop_push_or_low: "drop_bit k (push_bit k (x :: u64) OR (y AND mask k)) = take_bit (64 - k) x"
  by (rule bit_eqI) (auto simp: bit_simps)

lemma header_value_bit0:
  assumes "b = 0 \<or> b = 1"
  shows "uint ((push_bit 1 (x :: u64) OR (word_of_int b AND 1)) AND 1) = b"
proof -
  have "(push_bit 1 x OR (word_of_int b AND 1)) AND 1 = (word_of_int b AND 1) AND (1 :: u64)"
    using and_mask_below_push [of 1 x "word_of_int b AND 1"] by simp
  with assms show ?thesis
    by auto
qed

lemma header_value_length:
  assumes "n < 2 ^ 63"
  shows "unat (drop_bit 1 (push_bit 1 (of_nat n :: u64) OR (word_of_int b AND 1))) = n"
proof -
  have "drop_bit 1 (push_bit 1 (of_nat n :: u64) OR (word_of_int b AND 1)) = take_bit 63 (of_nat n :: u64)"
    using drop_push_or_low [of 1 "of_nat n" "word_of_int b"] by simp
  moreover have "unat (take_bit 63 (of_nat n :: u64)) = n"
    using assms by (simp add: unsigned_take_bit_eq unsigned_of_nat take_bit_nat_eq_self)
  ultimately show ?thesis by simp
qed

lemma header_value_bound:
  assumes "n < 2 ^ 62"
  shows "push_bit 1 (of_nat n :: u64) OR (word_of_int b AND 1) < 2 ^ 63"
proof -
  let ?v = "push_bit 1 (of_nat n :: u64) OR (word_of_int b AND 1)"
  from assms have "n < 2 ^ 63" by simp
  then have "unat (drop_bit 1 ?v) = n" by (rule header_value_length)
  moreover have "unat (drop_bit 1 ?v) = unat ?v div 2"
    using unat_drop_bit_eq [of 1 ?v] by (simp only: drop_bit_eq_div [of 1 "unat ?v"]) simp
  ultimately have "unat ?v div 2 < 2 ^ 62" using assms by simp
  then have "unat ?v < 2 ^ 63" by simp
  then show ?thesis by (simp add: word_less_nat_alt)
qed

lemma write_frame_mux:
  assumes wf: "buf_wf output" and al: "\<forall>n. alloc n" and ns: "num_streams \<noteq> 1"
    and enc: "mux_leb128_encode (push_bit 1 (of_nat (length P)) OR (word_of_int b AND 1)) True 10 = Inr hdr"
  shows "fst (mux_leb128_write_frame alloc output (Some P) (length P) b num_streams) = MUX_OK \<and>
         buf_wf (snd (mux_leb128_write_frame alloc output (Some P) (length P) b num_streams)) \<and>
         unread (snd (mux_leb128_write_frame alloc output (Some P) (length P) b num_streams)) =
           unread output @ hdr @ P"
proof -
  obtain r1 o1 where w1: "mux_buffer_write alloc output (Some hdr) = (r1, o1)"
    by (cases "mux_buffer_write alloc output (Some hdr)")
  from write_wf [OF wf al, of hdr] w1
  have o1: "r1 = MUX_OK" "buf_wf o1" "unread o1 = unread output @ hdr" by simp_all
  obtain r2 o2 where w2: "mux_buffer_write alloc o1 (Some P) = (r2, o2)"
    by (cases "mux_buffer_write alloc o1 (Some P)")
  from write_wf [OF o1(2) al, of P] w2
  have o2: "r2 = MUX_OK" "buf_wf o2" "unread o2 = unread o1 @ P" by simp_all
  show ?thesis
    using ns enc w1 o1 w2 o2
    by (cases "P = []") (simp_all add: mux_leb128_write_frame_def)
qed

lemma wire_prefix_incomplete:
  assumes enc: "mux_leb128_encode v True 10 = Inr hdr" and small: "v < 2 ^ 63"
    and len: "unat (drop_bit 1 v) = length P"
    and pre: "u @ w = hdr @ P" and ne: "w \<noteq> []"
  shows "header_incomplete u \<or> payload_incomplete u"
proof (cases "length u < length hdr")
  case True
  from enc have loop: "leb128_encode_loop v 0 10 = Inr hdr" by (simp add: mux_leb128_encode_def)
  from encode_len9 [OF small] enc have l9: "length hdr \<le> 9" by simp
  from pre True have "u = take (length u) hdr"
    by (metis append_eq_conv_conj take_append less_imp_le_nat diff_is_0_eq' take_0 append_Nil2 nat_less_le)
  with True have "u = take (length u) (butlast hdr)"
    by (simp add: take_butlast)
  then have "set u \<subseteq> set (butlast hdr)"
    by (metis set_take_subset)
  with encode_loop_cont [OF loop] have "\<forall>b \<in> set u. b AND 0x80 \<noteq> 0" by blast
  with True l9 show ?thesis by (simp add: header_incomplete_def list_all_iff)
next
  case False
  with pre obtain p' where u: "u = hdr @ p'" and P: "P = p' @ w"
    by (metis append_eq_append_conv_if append_take_drop_id linorder_not_less)
  from leb128_roundtrip_below [OF small, of p'] enc
  have "mux_leb128_decode (Some u) = Inr (v, length hdr)" by (simp add: u)
  moreover from P ne have "length p' < length P" by simp
  ultimately show ?thesis using len by (simp add: payload_incomplete_def u)
qed

lemma feed_chunks_drained:
  assumes al: "\<forall>n. alloc n"
  shows "buf_wf input \<Longrightarrow> unread input = [] \<Longrightarrow> concat chunks = [] \<Longrightarrow>
         frames_read (feed_chunks alloc input chunks payload_capacity 2) = []"
proof (induction chunks)
  case Nil
  then show ?case by (simp add: frames_read_def)
next
  case (Cons c cs)
  then have c: "c = []" and cs: "concat cs = []" by simp_all
  have w: "mux_buffer_write alloc input (Some c) = (MUX_OK, input)"
    by (simp add: c mux_buffer_write_def)
  have hi: "header_incomplete (unread input) \<or> payload_incomplete (unread input)"
    using Cons.prems(2) by (simp add: header_incomplete_def)
  note r = read_frame_incomplete_again_aux [OF Cons.prems(1) hi, of True payload_capacity]
  from Cons.IH [OF Cons.prems(1) Cons.prems(2) cs] show ?case
    by (simp add: w r Let_def frames_read_def)
qed

lemma feed_chunks_frame:
  assumes al: "\<forall>n. alloc n"
    and enc: "mux_leb128_encode v True 10 = Inr hdr" and small: "v < 2 ^ 63"
    and len: "unat (drop_bit 1 v) = length P"
    and room: "length P \<le> payload_capacity"
  shows "buf_wf input \<Longrightarrow> unread input @ concat chunks = hdr @ P \<Longrightarrow> unread input \<noteq> hdr @ P \<Longrightarrow>
         frames_read (feed_chunks alloc input chunks payload_capacity 2) =
           [(MUX_OK, P, Some (length P), Some (uint (v AND 1)))]"
proof (induction chunks arbitrary: input)
  case Nil
  then show ?case by simp
next
  case (Cons c cs)
  obtain ret input1 where w: "mux_buffer_write alloc input (Some c) = (ret, input1)"
    by (cases "mux_buffer_write alloc input (Some c)")
  from write_wf [OF Cons.prems(1) al, of c] w
  have i1: "ret = MUX_OK" "buf_wf input1" "unread input1 = unread input @ c" by simp_all
  let ?r = "mux_leb128_read_frame input1 True payload_capacity 2"
  have step: "feed_chunks alloc input (c # cs) payload_capacity 2 =
                ?r # feed_chunks alloc (fr_input ?r) cs payload_capacity 2"
    by (simp add: w i1(1) Let_def)
  from Cons.prems(2) i1(3) have split: "unread input1 @ concat cs = hdr @ P" by simp
  show ?case
  proof (cases "unread input1 = hdr @ P")
    case True
    with split have cs: "concat cs = []" by simp
    from leb128_roundtrip_below [OF small, of P] enc True
    have dec: "mux_leb128_decode (Some (unread input1)) = Inr (v, length hdr)" by simp
    have len': "unat (drop_bit (Suc 0) v) = length P"
      using len by simp
    have complete: "length hdr + unat (drop_bit 1 v) \<le> length (unread input1)"
      by (simp add: True len')
    have rm: "\<not> (True \<and> payload_capacity < unat (drop_bit 1 v))"
      using room by (simp add: len')
    note ok = read_frame_ok [OF i1(2) dec complete rm]
    have rec: "received ?r = P"
      by (cases "P = []") (simp_all add: received_def ok(4) len' True)
    have dr: "unread (fr_input ?r) = []"
      by (simp add: ok(6) True len')
    from feed_chunks_drained [OF al ok(5) dr cs, of payload_capacity]
    have "frames_read (feed_chunks alloc (fr_input ?r) cs payload_capacity 2) = []" .
    then show ?thesis
      unfolding step by (simp add: frames_read_def ok(1,2,3) rec len' del: feed_chunks.simps)
  next
    case False
    have "concat cs \<noteq> []"
    proof
      assume "concat cs = []"
      with split have "unread input1 = hdr @ P" by (simp only: append_Nil2)
      with False show False by simp
    qed
    from wire_prefix_incomplete [OF enc small len split this]
    have hi: "header_incomplete (unread input1) \<or> payload_incomplete (unread input1)" .
    note r = read_frame_incomplete_again_aux [OF i1(2) hi, of True payload_capacity]
    from Cons.IH [OF i1(2) split False] show ?thesis
      unfolding step by (simp add: r frames_read_def del: feed_chunks.simps)
  qed
qed

text \<open>
  Claim C2: in dual-stream mode, for every payload \<open>P\<close> and every stream bit \<open>b\<close>, the
  bytes that \<open>mux_leb128_write_frame\<close> appends to an empty output buffer, cut into chunks
  in any way and appended chunk by chunk to an empty input buffer with a call of
  \<open>mux_leb128_read_frame\<close> after each chunk (destination capacity at least \<open>length P\<close>,
  allocations succeeding), give exactly one result other than \<open>MUX_ERROR_AGAIN\<close>:
  \<open>MUX_OK\<close> with payload \<open>P\<close>, size \<open>length P\<close> and stream bit \<open>b\<close>. The payload is one
  that fits in memory beside its frame: its length is below \<open>2^62\<close> bytes, a bound that
  every buffer of a 64-bit address space satisfies.
\<close>

theorem frame_roundtrip_chunked:
  assumes "\<forall>n. alloc n"
    and "buf_wf output" and "unread output = []"
    and "buf_wf input" and "unread input = []"
    and "length P < 2 ^ 62" and "b = 0 \<or> b = 1"
    and "concat chunks = unread (snd (mux_leb128_write_frame alloc output (Some P) (length P) b 2))"
    and "length P \<le> payload_capacity"
  shows "fst (mux_leb128_write_frame alloc output (Some P) (length P) b 2) = MUX_OK \<and>
         frames_read (feed_chunks alloc input chunks payload_capacity 2) =
           [(MUX_OK, P, Some (length P), Some b)]"
proof -
  let ?v = "push_bit 1 (of_nat (length P) :: u64) OR (word_of_int b AND 1)"
  from header_value_bound [OF assms(6)] have small: "?v < 2 ^ 63" .
  from encode_len9 [OF small] obtain hdr where
    enc: "mux_leb128_encode ?v True 10 = Inr hdr" and hl: "0 < length hdr" by blast
  from assms(6) have "length P < 2 ^ 63" by simp
  from header_value_length [OF this] have len: "unat (drop_bit 1 ?v) = length P" .
  have bit: "uint (?v AND 1) = b" using assms(7) by (rule header_value_bit0)
  have ns: "(2 :: int) \<noteq> 1" by simp
  note wr = write_frame_mux [OF assms(2) assms(1) ns enc]
  from wr assms(3,8) have wire: "unread input @ concat chunks = hdr @ P"
    by (simp add: assms(5))
  from hl have "unread input \<noteq> hdr @ P" by (auto simp: assms(5))
  from feed_chunks_frame [OF assms(1) enc small len assms(9) assms(4) wire this] wr bit
  show ?thesis by simp
qed

theorem frame_roundtrip_chunked_witness:
  "frames_read (feed_chunks alloc_always
       \<lparr>data = replicate 8 0, size_buf = 0, capacity = 8, read_pos = 0\<rparr>
       [[0x07], [], [0x41, 0x42], [0x43]] 3 2) =
     [(MUX_OK, [0x41, 0x42, 0x43], Some 3, Some 1)]"
proof -
  let ?B = "\<lparr>data = replicate 8 (0 :: byte), size_buf = 0, capacity = 8, read_pos = 0\<rparr>"
  have h1: "\<forall>n. alloc_always n" by (simp add: alloc_always_def)
  have h2: "buf_wf ?B" by (simp add: buf_wf_def buf_inv_def)
  have h3: "unread ?B = []" by (simp add: unread_def size_t_sub_def)
  have h6: "length [0x41, 0x42, 0x43 :: byte] < 2 ^ 62" by simp
  have h7: "(1 :: int) = 0 \<or> (1 :: int) = 1" by simp
  have h8: "concat [[0x07], [], [0x41, 0x42], [0x43 :: byte]] =
        unread (snd (mux_leb128_write_frame alloc_always ?B (Some [0x41, 0x42, 0x43])
                       (length [0x41, 0x42, 0x43 :: byte]) 1 2))"
    by (simp add: mux_leb128_write_frame_def mux_leb128_encode_def leb128_encode_loop.simps
        mux_buffer_write_def mux_buffer_ensure_capacity_def memcpy_into_def unread_def
        size_t_sub_def alloc_always_def)
  have h9: "length [0x41, 0x42, 0x43 :: byte] \<le> 3" by simp
  from frame_roundtrip_chunked [OF h1 h2 h3 h2 h3 h6 h7 h8 h9] show ?thesis by simp
qed

section \<open>Reads that skip, and the frame codec in passthrough mode\<close>

lemma unread_advance:
  assumes wf: "buf_wf buf" and k: "read_pos buf + k \<le> size_buf buf"
  shows "unread (if read_pos buf + k = size_buf buf
                 then buf\<lparr>read_pos := 0, size_buf := 0\<rparr>
                 else buf\<lparr>read_pos := read_pos buf + k\<rparr>) = drop k (unread buf)"
proof (cases "read_pos buf + k = size_buf buf")
  case True
  then have "k = length (unread buf)" using length_unread [OF wf] by arith
  with True show ?thesis by (simp add: unread_def size_t_sub_def)
next
  case False
  with k have lt: "read_pos buf + k < size_buf buf" by simp
  have "unread (buf\<lparr>read_pos := read_pos buf + k\<rparr>) =
        take (size_buf buf - (read_pos buf + k)) (drop (read_pos buf + k) (data buf))"
    using lt by (simp add: unread_def size_t_sub_def)
  also have "\<dots> = drop k (unread buf)"
    using wf by (simp add: unread_wf drop_take ac_simps)
  finally show ?thesis using False by simp
qed

lemma buffer_read_unfold:
  assumes wf: "buf_wf buf" and ne: "unread buf \<noteq> []"
  shows "mux_buffer_read buf dst n =
     \<lparr>br_status = MUX_OK,
      br_buf = (if read_pos buf + min n (length (unread buf)) = size_buf buf
                then buf\<lparr>read_pos := 0, size_buf := 0\<rparr>
                else buf\<lparr>read_pos := read_pos buf + min n (length (unread buf))\<rparr>),
      br_copied = (if dst then Some (take (min n (length (unread buf))) (unread buf)) else None),
      br_bytes_read = min n (length (unread buf))\<rparr>"
proof -
  from wf have av: "size_t_sub (size_buf buf) (read_pos buf) = length (unread buf)"
    by (rule avail_wf)
  from ne have pos: "length (unread buf) \<noteq> 0" by simp
  have tk: "take (min n (length (unread buf))) (drop (read_pos buf) (data buf)) =
            take (min n (length (unread buf))) (unread buf)"
    using av by (simp add: unread_def min_def)
  have mn: "(if length (unread buf) < n then length (unread buf) else n) = min n (length (unread buf))"
    by (simp add: min_def)
  show ?thesis
    using pos by (simp add: mux_buffer_read_def Let_def av mn tk)
qed

text \<open>
  Claim C10, as amended: on a non-empty buffer, \<open>mux_buffer_read\<close> with a null destination
  succeeds like a read with a destination: it returns \<open>MUX_OK\<close>, consumes the first
  \<open>min(requested, available)\<close> unread bytes, stores that count in \<open>*bytes_read\<close> and
  copies nothing. \<open>read_pos\<close> advances by that count when unread bytes remain; when the
  read reaches \<open>size\<close>, \<open>read_pos\<close> and \<open>size\<close> are both reset to 0, as after every
  read. Return code, count and buffer are those of the same call with a destination.
\<close>

theorem buffer_read_null_destination_skips:
  assumes "buf_wf buf" and "unread buf \<noteq> []"
  shows "br_status (mux_buffer_read buf False n) = MUX_OK \<and>
         br_bytes_read (mux_buffer_read buf False n) = min n (length (unread buf)) \<and>
         br_copied (mux_buffer_read buf False n) = None \<and>
         unread (br_buf (mux_buffer_read buf False n)) = drop (min n (length (unread buf))) (unread buf) \<and>
         read_pos (br_buf (mux_buffer_read buf False n)) =
           (if read_pos buf + min n (length (unread buf)) = size_buf buf then 0
            else read_pos buf + min n (length (unread buf))) \<and>
         br_status (mux_buffer_read buf True n) = MUX_OK \<and>
         br_bytes_read (mux_buffer_read buf True n) = br_bytes_read (mux_buffer_read buf False n) \<and>
         br_buf (mux_buffer_read buf True n) = br_buf (mux_buffer_read buf False n)"
proof -
  have "read_pos buf + min n (length (unread buf)) \<le> size_buf buf"
    using length_unread [OF assms(1)] assms(1) by (auto simp: buf_wf_def buf_inv_def min_def)
  from unread_advance [OF assms(1) this] show ?thesis
    by (simp add: buffer_read_unfold [OF assms])
qed

theorem buffer_read_null_destination_skips_witness:
  "mux_buffer_read \<lparr>data = [1, 2, 3, 0], size_buf = 3, capacity = 4, read_pos = 0\<rparr> False 2 =
     \<lparr>br_status = MUX_OK,
      br_buf = \<lparr>data = [1, 2, 3, 0], size_buf = 3, capacity = 4, read_pos = 2\<rparr>,
      br_copied = None, br_bytes_read = 2\<rparr> \<and>
   unread (br_buf (mux_buffer_read \<lparr>data = [1, 2, 3, 0], size_buf = 3, capacity = 4, read_pos = 0\<rparr> False 2)) = [3] \<and>
   mux_buffer_read \<lparr>data = [1, 2, 3, 0], size_buf = 3, capacity = 4, read_pos = 1\<rparr> False 5 =
     \<lparr>br_status = MUX_OK,
      br_buf = \<lparr>data = [1, 2, 3, 0], size_buf = 0, capacity = 4, read_pos = 0\<rparr>,
      br_copied = None, br_bytes_read = 2\<rparr> \<and>
   unread (br_buf (mux_buffer_read \<lparr>data = [1, 2, 3, 0], size_buf = 3, capacity = 4, read_pos = 1\<rparr> False 5)) = [] \<and>
   br_buf (mux_buffer_read \<lparr>data = [1, 2, 3, 0], size_buf = 3, capacity = 4, read_pos = 1\<rparr> True 5) =
     \<lparr>data = [1, 2, 3, 0], size_buf = 0, capacity = 4, read_pos = 0\<rparr>"
proof -
  let ?b = "\<lparr>data = [1, 2, 3, 0 :: byte], size_buf = 3, capacity = 4, read_pos = 0\<rparr>"
  let ?c = "\<lparr>data = [1, 2, 3, 0 :: byte], size_buf = 3, capacity = 4, read_pos = 1\<rparr>"
  have h1: "buf_wf ?b" by (simp add: buf_wf_def buf_inv_def)
  have u: "unread ?b = [1, 2, 3]" by (simp add: unread_def size_t_sub_def)
  then have h2: "unread ?b \<noteq> []" by simp
  have k1: "buf_wf ?c" by (simp add: buf_wf_def buf_inv_def)
  have v: "unread ?c = [2, 3]" by (simp add: unread_def size_t_sub_def)
  then have k2: "unread ?c \<noteq> []" by simp
  from buffer_read_null_destination_skips [OF h1 h2, of 2] u
  have "unread (br_buf (mux_buffer_read ?b False 2)) = [3]" by simp
  moreover have "mux_buffer_read ?b False 2 =
     \<lparr>br_status = MUX_OK,
      br_buf = \<lparr>data = [1, 2, 3, 0], size_buf = 3, capacity = 4, read_pos = 2\<rparr>,
      br_copied = None, br_bytes_read = 2\<rparr>"
    by (simp add: mux_buffer_read_def size_t_sub_def)
  moreover have drained: "mux_buffer_read ?c False 5 =
     \<lparr>br_status = MUX_OK,
      br_buf = \<lparr>data = [1, 2, 3, 0], size_buf = 0, capacity = 4, read_pos = 0\<rparr>,
      br_copied = None, br_bytes_read = 2\<rparr>"
    by (simp add: mux_buffer_read_def size_t_sub_def)
  moreover from buffer_read_null_destination_skips [OF k1 k2, of 5] v
  have "unread (br_buf (mux_buffer_read ?c False 5)) = [] \<and>
        br_buf (mux_buffer_read ?c True 5) = br_buf (mux_buffer_read ?c False 5)"
    by simp
  ultimately show ?thesis by simp
qed

text \<open>
  The claim as stated fails for a read that empties the buffer: \<open>read_pos\<close> does not
  advance by \<open>min(requested, available)\<close> but returns to 0, and \<open>size\<close> with it. Here two
  bytes are unread at \<open>read_pos = 1\<close>; skipping five reports two bytes and leaves
  \<open>read_pos = 0\<close>, not 3.
\<close>

theorem buffer_read_null_destination_skips_counterexample:
  "br_status (mux_buffer_read \<lparr>data = [1, 2, 3, 0], size_buf = 3, capacity = 4, read_pos = 1\<rparr> False 5) = MUX_OK \<and>
   br_bytes_read (mux_buffer_read \<lparr>data = [1, 2, 3, 0], size_buf = 3, capacity = 4, read_pos = 1\<rparr> False 5) = 2 \<and>
   min 5 (length (unread \<lparr>data = [1, 2, 3, 0], size_buf = 3, capacity = 4, read_pos = 1\<rparr>)) = 2 \<and>
   read_pos (br_buf (mux_buffer_read \<lparr>data = [1, 2, 3, 0], size_buf = 3, capacity = 4, read_pos = 1\<rparr> False 5)) = 0 \<and>
   size_buf (br_buf (mux_buffer_read \<lparr>data = [1, 2, 3, 0], size_buf = 3, capacity = 4, read_pos = 1\<rparr> False 5)) = 0"
  by (simp add: mux_buffer_read_def size_t_sub_def unread_def)

lemma read_frame_passthrough_unfold:
  assumes wf: "buf_wf input" and ne: "unread input \<noteq> []"
  shows "mux_leb128_read_frame input payload payload_capacity 1 =
     \<lparr>fr_status = MUX_OK,
      fr_input = (if read_pos input + min (length (unread input)) payload_capacity = size_buf input
                  then input\<lparr>read_pos := 0, size_buf := 0\<rparr>
                  else input\<lparr>read_pos := read_pos input + min (length (unread input)) payload_capacity\<rparr>),
      fr_payload = (if payload \<and> 0 < min (length (unread input)) payload_capacity
                    then Some (take (min (length (unread input)) payload_capacity) (unread input))
                    else None),
      fr_payload_size = Some (min (length (unread input)) payload_capacity),
      fr_stream_type = Some MUX_STREAM_AUDIO\<rparr>"
proof -
  from wf have av: "size_t_sub (size_buf input) (read_pos input) = length (unread input)"
    by (rule avail_wf)
  from ne have pos: "length (unread input) \<noteq> 0" by simp
  have tk: "take (min (length (unread input)) payload_capacity) (drop (read_pos input) (data input)) =
            take (min (length (unread input)) payload_capacity) (unread input)"
    using av by (simp add: unread_def min_def)
  have mn: "(if length (unread input) < payload_capacity then length (unread input) else payload_capacity)
            = min (length (unread input)) payload_capacity"
    by (simp add: min_def)
  show ?thesis
    using pos by (simp add: mux_leb128_read_frame_def Let_def av mn tk)
qed

text \<open>
  Claim C5, as amended: in passthrough mode, on a non-empty input buffer,
  \<open>mux_leb128_read_frame\<close> returns \<open>MUX_OK\<close>, consumes the first
  \<open>min(available, payload_capacity)\<close> unread bytes in one call (all of them when the
  capacity is at least their number) and reports the chunk as \<open>MUX_STREAM_AUDIO\<close>.
\<close>

theorem read_frame_passthrough_drains_up_to_capacity:
  assumes "buf_wf input" and "unread input \<noteq> []"
  shows "fr_status (mux_leb128_read_frame input payload payload_capacity 1) = MUX_OK \<and>
         fr_stream_type (mux_leb128_read_frame input payload payload_capacity 1) = Some MUX_STREAM_AUDIO \<and>
         fr_payload_size (mux_leb128_read_frame input payload payload_capacity 1) =
           Some (min (length (unread input)) payload_capacity) \<and>
         fr_payload (mux_leb128_read_frame input payload payload_capacity 1) =
           (if payload \<and> 0 < payload_capacity
            then Some (take (min (length (unread input)) payload_capacity) (unread input)) else None) \<and>
         unread (fr_input (mux_leb128_read_frame input payload payload_capacity 1)) =
           drop (min (length (unread input)) payload_capacity) (unread input) \<and>
         (length (unread input) \<le> payload_capacity \<longrightarrow>
            unread (fr_input (mux_leb128_read_frame input payload payload_capacity 1)) = [])"
proof -
  let ?k = "min (length (unread input)) payload_capacity"
  let ?r = "mux_leb128_read_frame input payload payload_capacity 1"
  have le: "read_pos input + ?k \<le> size_buf input"
    using length_unread [OF assms(1)] assms(1) by (auto simp: buf_wf_def buf_inv_def min_def)
  have inp: "fr_input ?r = (if read_pos input + ?k = size_buf input
                  then input\<lparr>read_pos := 0, size_buf := 0\<rparr>
                  else input\<lparr>read_pos := read_pos input + ?k\<rparr>)"
    by (simp add: read_frame_passthrough_unfold [OF assms])
  have u: "unread (fr_input ?r) = drop ?k (unread input)"
    by (simp only: inp unread_advance [OF assms(1) le])
  have z: "length (unread input) \<le> payload_capacity \<longrightarrow> unread (fr_input ?r) = []"
    by (simp add: u min_def)
  have pos: "0 < ?k \<longleftrightarrow> 0 < payload_capacity"
    using assms(2) by (cases "unread input") (auto simp: min_def)
  have "fr_status ?r = MUX_OK" "fr_stream_type ?r = Some MUX_STREAM_AUDIO"
    "fr_payload_size ?r = Some ?k"
    "fr_payload ?r = (if payload \<and> 0 < payload_capacity then Some (take ?k (unread input)) else None)"
    using pos by (simp_all add: read_frame_passthrough_unfold [OF assms])
  with u z show ?thesis by (simp only: simp_thms)
qed

theorem read_frame_passthrough_drains_up_to_capacity_witness:
  "fr_status (mux_leb128_read_frame \<lparr>data = [1, 2, 3, 0], size_buf = 3, capacity = 4, read_pos = 0\<rparr> True 8 1) = MUX_OK \<and>
   fr_stream_type (mux_leb128_read_frame \<lparr>data = [1, 2, 3, 0], size_buf = 3, capacity = 4, read_pos = 0\<rparr> True 8 1) = Some MUX_STREAM_AUDIO \<and>
   fr_payload (mux_leb128_read_frame \<lparr>data = [1, 2, 3, 0], size_buf = 3, capacity = 4, read_pos = 0\<rparr> True 8 1) = Some [1, 2, 3] \<and>
   unread (fr_input (mux_leb128_read_frame \<lparr>data = [1, 2, 3, 0], size_buf = 3, capacity = 4, read_pos = 0\<rparr> True 8 1)) = []"
proof -
  let ?b = "\<lparr>data = [1, 2, 3, 0 :: byte], size_buf = 3, capacity = 4, read_pos = 0\<rparr>"
  have h1: "buf_wf ?b" by (simp add: buf_wf_def buf_inv_def)
  have u: "unread ?b = [1, 2, 3]" by (simp add: unread_def size_t_sub_def)
  then have h2: "unread ?b \<noteq> []" by simp
  from read_frame_passthrough_drains_up_to_capacity [OF h1 h2, of True 8] u
  show ?thesis by simp
qed

text \<open>
  The claim as stated, that all available bytes are drained, fails when the destination
  is smaller than what is available: of three unread bytes a call with capacity 2
  takes two and leaves the third in the buffer.
\<close>

theorem read_frame_passthrough_leaves_bytes_counterexample:
  "buf_wf \<lparr>data = [1, 2, 3, 0], size_buf = 3, capacity = 4, read_pos = 0\<rparr> \<and>
   unread \<lparr>data = [1, 2, 3, 0], size_buf = 3, capacity = 4, read_pos = 0\<rparr> = [1, 2, 3] \<and>
   mux_leb128_read_frame \<lparr>data = [1, 2, 3, 0], size_buf = 3, capacity = 4, read_pos = 0\<rparr> True 2 1 =
     \<lparr>fr_status = MUX_OK,
      fr_input = \<lparr>data = [1, 2, 3, 0], size_buf = 3, capacity = 4, read_pos = 2\<rparr>,
      fr_payload = Some [1, 2], fr_payload_size = Some 2,
      fr_stream_type = Some MUX_STREAM_AUDIO\<rparr> \<and>
   unread \<lparr>data = [1, 2, 3, 0], size_buf = 3, capacity = 4, read_pos = 2\<rparr> = [3]"
  by (simp add: buf_wf_def buf_inv_def unread_def size_t_sub_def mux_leb128_read_frame_def)

section \<open>Properties of \<open>decoder_read\<close> and of encoder construction\<close>

lemma nonempty_wf:
  assumes "buf_inv buf" and "length (data buf) = capacity buf" and "unread buf \<noteq> []"
  shows "buf_wf buf"
proof -
  from assms(3) have "size_t_sub (size_buf buf) (read_pos buf) \<noteq> 0"
    by (auto simp: unread_def)
  with assms(1) have "0 < size_buf buf"
    by (auto simp: buf_inv_def size_t_sub_def)
  with assms(1,2) show ?thesis
    by (simp add: buf_wf_def buf_inv_def)
qed

lemma decoder_read_audio:
  assumes wf: "buf_wf (audio_output dec)" and ne: "unread (audio_output dec) \<noteq> []"
  shows "pcm_decoder_read dec True n =
           \<lparr>dr_status = MUX_OK,
            dr_dec = dec\<lparr>audio_output := br_buf (mux_buffer_read (audio_output dec) True n)\<rparr>,
            dr_output = Some (take (min n (length (unread (audio_output dec)))) (unread (audio_output dec))),
            dr_output_written = Some (min n (length (unread (audio_output dec)))),
            dr_stream_type = Some MUX_STREAM_AUDIO\<rparr>"
    and "alaw_decoder_read dec True n = pcm_decoder_read dec True n"
    and "amr_decoder_read dec True n = pcm_decoder_read dec True n"
  by (simp_all add: pcm_decoder_read_def alaw_decoder_read_def amr_decoder_read_def Let_def
      buffer_read_unfold [OF wf ne])

text \<open>
  Claim C6: for each of \<open>pcm_decoder_read\<close>, \<open>alaw_decoder_read\<close> and
  \<open>amr_decoder_read\<close>, called with a destination: whenever the audio output buffer is
  non-empty (whatever the side-channel buffer holds), the call returns \<open>MUX_OK\<close> with
  the first unread bytes of the audio buffer, reports \<open>MUX_STREAM_AUDIO\<close> and leaves the
  side-channel buffer alone; a call that reports \<open>MUX_STREAM_SIDE_CHANNEL\<close> found the
  audio buffer empty.
\<close>

theorem decoder_read_audio_first:
  assumes "buf_inv (audio_output dec)"
    and "length (data (audio_output dec)) = capacity (audio_output dec)"
    and "read = pcm_decoder_read \<or> read = alaw_decoder_read \<or> read = amr_decoder_read"
  shows "(unread (audio_output dec) \<noteq> [] \<longrightarrow>
            dr_status (read dec True n) = MUX_OK \<and>
            dr_stream_type (read dec True n) = Some MUX_STREAM_AUDIO \<and>
            dr_output (read dec True n) =
              Some (take (min n (length (unread (audio_output dec)))) (unread (audio_output dec))) \<and>
            dr_output_written (read dec True n) = Some (min n (length (unread (audio_output dec)))) \<and>
            side_output (dr_dec (read dec True n)) = side_output dec) \<and>
         (dr_stream_type (read dec True n) = Some MUX_STREAM_SIDE_CHANNEL \<longrightarrow>
            unread (audio_output dec) = [])"
proof (cases "unread (audio_output dec) = []")
  case True
  then show ?thesis by simp
next
  case False
  from nonempty_wf [OF assms(1,2) False] have wf: "buf_wf (audio_output dec)" .
  note r = decoder_read_audio [OF wf False, of n]
  from assms(3) have "read dec True n = pcm_decoder_read dec True n"
  proof (elim disjE)
    assume "read = pcm_decoder_read"
    then show ?thesis by (simp only:)
  next
    assume "read = alaw_decoder_read"
    then show ?thesis by (simp only: r(2))
  next
    assume "read = amr_decoder_read"
    then show ?thesis by (simp only: r(3))
  qed
  then show ?thesis
    using False by (simp only: r(1)) (simp add: MUX_STREAM_AUDIO_def MUX_STREAM_SIDE_CHANNEL_def)
qed

theorem decoder_read_audio_first_witness:
  "dr_status (pcm_decoder_read
      \<lparr>dec_codec_type = 0, dec_num_streams = 2,
       audio_output = \<lparr>data = [1, 2, 3, 4], size_buf = 4, capacity = 4, read_pos = 0\<rparr>,
       side_output = \<lparr>data = [9, 8, 0, 0], size_buf = 2, capacity = 4, read_pos = 0\<rparr>\<rparr> True 16) = MUX_OK \<and>
   dr_stream_type (pcm_decoder_read
      \<lparr>dec_codec_type = 0, dec_num_streams = 2,
       audio_output = \<lparr>data = [1, 2, 3, 4], size_buf = 4, capacity = 4, read_pos = 0\<rparr>,
       side_output = \<lparr>data = [9, 8, 0, 0], size_buf = 2, capacity = 4, read_pos = 0\<rparr>\<rparr> True 16) = Some MUX_STREAM_AUDIO \<and>
   dr_output (pcm_decoder_read
      \<lparr>dec_codec_type = 0, dec_num_streams = 2,
       audio_output = \<lparr>data = [1, 2, 3, 4], size_buf = 4, capacity = 4, read_pos = 0\<rparr>,
       side_output = \<lparr>data = [9, 8, 0, 0], size_buf = 2, capacity = 4, read_pos = 0\<rparr>\<rparr> True 16) = Some [1, 2, 3, 4]"
proof -
  let ?a = "\<lparr>data = [1, 2, 3, 4 :: byte], size_buf = 4, capacity = 4, read_pos = 0\<rparr>"
  let ?d = "\<lparr>dec_codec_type = 0, dec_num_streams = 2, audio_output = ?a,
             side_output = \<lparr>data = [9, 8, 0, 0], size_buf = 2, capacity = 4, read_pos = 0\<rparr>\<rparr>"
  have h1: "buf_inv (audio_output ?d)" by (simp add: buf_inv_def)
  have h2: "length (data (audio_output ?d)) = capacity (audio_output ?d)" by simp
  have h3: "pcm_decoder_read = pcm_decoder_read \<or> pcm_decoder_read = alaw_decoder_read \<or>
            pcm_decoder_read = amr_decoder_read" by (rule disjI1) (rule refl)
  have u: "unread (audio_output ?d) = [1, 2, 3, 4]" by (simp add: unread_def size_t_sub_def)
  then have ne: "unread (audio_output ?d) \<noteq> []" by simp
  have tk: "take (min 16 (length (unread (audio_output ?d)))) (unread (audio_output ?d)) = [1, 2, 3, 4]"
    by (simp only: u) simp
  from decoder_read_audio_first [OF h1 h2 h3, of 16] ne
  have "dr_status (pcm_decoder_read ?d True 16) = MUX_OK \<and>
        dr_stream_type (pcm_decoder_read ?d True 16) = Some MUX_STREAM_AUDIO \<and>
        dr_output (pcm_decoder_read ?d True 16) =
          Some (take (min 16 (length (unread (audio_output ?d)))) (unread (audio_output ?d)))"
    by blast
  then show ?thesis by (simp only: tk)
qed

lemma get_codec_ops_absent:
  "mux_get_codec_ops tab type = None \<longleftrightarrow>
     (type < 0 \<or> int (length tab) \<le> type \<or> tab ! nat type = None)"
  by (auto simp: mux_get_codec_ops_def)

lemma encoder_init_never_calls_null:
  "mux_encoder_init tab alloc enc type sr ch ns params \<noteq> None"
  by (auto simp: mux_encoder_init_def call_encoder_init_def Let_def
           split: option.splits prod.splits)

lemma encoder_new_never_calls_null:
  "mux_encoder_new tab alloc calloc_ok type sr ch ns params \<noteq> None"
  using encoder_init_never_calls_null [of tab alloc "Some zero_encoder" type sr ch ns params]
  by (auto simp: mux_encoder_new_def split: option.splits prod.splits)

text \<open>
  Claim C7, as amended: for every codec identifier without an entry in the operations
  table (out of range, or a \<open>NULL\<close> entry) and a valid stream count (1 or 2, validated
  before the lookup), \<open>mux_encoder_init\<close> called with an encoder returns
  \<open>MUX_ERROR_NOCODEC\<close>, while \<open>mux_encoder_new\<close>, which returns a pointer and no status,
  returns \<open>NULL\<close>; both return, that is, neither calls a null function pointer (lemmas
  \<open>encoder_init_never_calls_null\<close> and \<open>encoder_new_never_calls_null\<close> show this for
  all arguments).
\<close>

theorem encoder_unavailable_codec:
  assumes "type < 0 \<or> int (length tab) \<le> type \<or> tab ! nat type = None"
    and "ns = 1 \<or> ns = 2"
  shows "mux_encoder_init tab alloc (Some e) type sr ch ns params =
           Some (MUX_ERROR_NOCODEC, Some zero_encoder) \<and>
         mux_encoder_new tab alloc calloc_ok type sr ch ns params = Some None"
proof -
  from assms(1) have absent: "mux_get_codec_ops tab type = None"
    by (simp add: get_codec_ops_absent)
  from assms(2) have ns: "\<not> (ns \<noteq> 1 \<and> ns \<noteq> 2)" by auto
  have i: "mux_encoder_init tab alloc (Some e') type sr ch ns params =
           Some (MUX_ERROR_NOCODEC, Some zero_encoder)" for e'
    using ns absent by (simp add: mux_encoder_init_def)
  then have "mux_encoder_new tab alloc calloc_ok type sr ch ns params = Some None"
    by (simp add: mux_encoder_new_def)
  with i show ?thesis by simp
qed

theorem encoder_unavailable_codec_witness:
  "mux_encoder_init [Some \<lparr>encoder_init = Some pcm_encoder_init\<rparr>, None]
      alloc_always (Some (zero_encoder :: unit mux_encoder)) 1 8000 1 2 () =
     Some (MUX_ERROR_NOCODEC, Some zero_encoder) \<and>
   mux_encoder_new [Some \<lparr>encoder_init = Some pcm_encoder_init\<rparr>, None]
      alloc_always True 1 8000 1 2 () = (Some None :: unit mux_encoder option option)"
proof -
  let ?tab = "[Some \<lparr>encoder_init = Some (pcm_encoder_init ::
                 unit mux_encoder \<Rightarrow> int \<Rightarrow> int \<Rightarrow> unit \<Rightarrow> mux_status \<times> unit mux_encoder)\<rparr>, None]"
  have h1: "(1 :: int) < 0 \<or> int (length ?tab) \<le> 1 \<or> ?tab ! nat 1 = None" by simp
  have h2: "(2 :: int) = 1 \<or> (2 :: int) = 2" by simp
  from encoder_unavailable_codec [OF h1 h2, of alloc_always zero_encoder 8000 1 "()" True]
  show ?thesis by simp
qed

text \<open>
  The claim as stated fails for \<open>mux_encoder_new\<close>: it returns a pointer and no status, so
  for an unregistered identifier it returns \<open>NULL\<close> and not \<open>MUX_ERROR_NOCODEC\<close>. With a
  valid stream count, codec 999 makes \<open>mux_encoder_init\<close> return \<open>MUX_ERROR_NOCODEC\<close>,
  and \<open>mux_encoder_new\<close> drops that code: its result is the \<open>NULL\<close> it also returns when
  a registered codec fails for lack of memory.
\<close>

theorem encoder_unavailable_codec_counterexample:
  "mux_encoder_init ([] :: (unit, unit) mux_codec_ops option list)
      alloc_always (Some zero_encoder) 999 44100 2 2 () =
     Some (MUX_ERROR_NOCODEC, Some zero_encoder) \<and>
   mux_encoder_new ([] :: (unit, unit) mux_codec_ops option list)
      alloc_always True 999 44100 2 2 () = Some None \<and>
   mux_encoder_new [Some \<lparr>encoder_init = Some pcm_encoder_init\<rparr>]
      alloc_always False 0 44100 2 2 () = (Some None :: unit mux_encoder option option)"
  by (simp add: mux_encoder_init_def mux_encoder_new_def mux_get_codec_ops_def)

section \<open>The AMR-NB encoder on 161 samples\<close>

lemma write_frame_any_mode:
  assumes wf: "buf_wf out" and al: "\<forall>n. alloc n"
  shows "fst (mux_leb128_write_frame alloc out (Some p) k st ns) = MUX_OK \<and>
         buf_wf (snd (mux_leb128_write_frame alloc out (Some p) k st ns))"
proof (cases "ns = 1")
  case True
  obtain r o1 where w: "mux_buffer_write alloc out (Some (take k p)) = (r, o1)"
    by (cases "mux_buffer_write alloc out (Some (take k p))")
  from write_wf [OF wf al, of "take k p"] w have "r = MUX_OK" "buf_wf o1" by simp_all
  with True w wf show ?thesis
    by (simp add: mux_leb128_write_frame_def)
next
  case False
  let ?v = "push_bit 1 (of_nat k :: u64) OR (word_of_int st AND 1)"
  from encode_ok_10 [of ?v] obtain hdr where enc: "mux_leb128_encode ?v True 10 = Inr hdr"
    by blast
  obtain r1 o1 where w1: "mux_buffer_write alloc out (Some hdr) = (r1, o1)"
    by (cases "mux_buffer_write alloc out (Some hdr)")
  from write_wf [OF wf al, of hdr] w1 have o1: "r1 = MUX_OK" "buf_wf o1" by simp_all
  obtain r2 o2 where w2: "mux_buffer_write alloc o1 (Some (take k p)) = (r2, o2)"
    by (cases "mux_buffer_write alloc o1 (Some (take k p))")
  from write_wf [OF o1(2) al, of "take k p"] w2 have o2: "r2 = MUX_OK" "buf_wf o2" by simp_all
  from False enc w1 o1 w2 o2 show ?thesis
    by (simp add: mux_leb128_write_frame_def)
qed

lemma write_frame_passthrough_unread:
  assumes wf: "buf_wf out" and al: "\<forall>n. alloc n"
  shows "unread (snd (mux_leb128_write_frame alloc out (Some p) k st 1)) = unread out @ take k p"
proof -
  obtain r o1 where w: "mux_buffer_write alloc out (Some (take k p)) = (r, o1)"
    by (cases "mux_buffer_write alloc out (Some (take k p))")
  from write_wf [OF wf al, of "take k p"] w
  have "r = MUX_OK" "unread o1 = unread out @ take k p" by simp_all
  with w show ?thesis
    by (cases "k = 0") (simp_all add: mux_leb128_write_frame_def)
qed

lemma write_frame_mux_unread:
  assumes wf: "buf_wf out" and al: "\<forall>n. alloc n" and ns: "ns \<noteq> 1"
    and enc: "mux_leb128_encode (push_bit 1 (of_nat k) OR (word_of_int st AND 1)) True 10 = Inr hdr"
  shows "unread (snd (mux_leb128_write_frame alloc out (Some p) k st ns)) = unread out @ hdr @ take k p"
proof -
  obtain r1 o1 where w1: "mux_buffer_write alloc out (Some hdr) = (r1, o1)"
    by (cases "mux_buffer_write alloc out (Some hdr)")
  from write_wf [OF wf al, of hdr] w1
  have o1: "r1 = MUX_OK" "buf_wf o1" "unread o1 = unread out @ hdr" by simp_all
  obtain r2 o2 where w2: "mux_buffer_write alloc o1 (Some (take k p)) = (r2, o2)"
    by (cases "mux_buffer_write alloc o1 (Some (take k p))")
  from write_wf [OF o1(2) al, of "take k p"] w2
  have o2: "r2 = MUX_OK" "unread o2 = unread o1 @ take k p" by simp_all
  show ?thesis
    using ns enc w1 o1 w2 o2
    by (cases "k = 0") (simp_all add: mux_leb128_write_frame_def)
qed

lemma ucast_of_nat_byte: "(ucast (of_nat n :: u64) :: byte) = of_nat n"
  by (rule bit_eqI) (auto simp: bit_simps)

lemma audio_header_one_byte:
  assumes "k \<le> 63"
  shows "mux_leb128_encode (push_bit 1 (of_nat k) OR (word_of_int MUX_STREAM_AUDIO AND 1)) True 10
           = Inr [of_nat (2 * k)]"
proof -
  let ?v = "of_nat (2 * k) :: u64"
  have v: "push_bit 1 (of_nat k :: u64) OR (word_of_int MUX_STREAM_AUDIO AND 1) = ?v"
    by (simp add: MUX_STREAM_AUDIO_def push_bit_eq_mult mult.commute)
  have "2 * k < 2 ^ LENGTH(64)" using assms by simp
  then have "take_bit LENGTH(64) (2 * k) = 2 * k"
    by (rule take_bit_nat_eq_self)
  then have "unat ?v = 2 * k"
    by (simp only: unsigned_of_nat) simp
  with assms have small: "unat ?v < 128" by simp
  then have d0: "drop_bit 7 ?v = 0" by (simp only: drop7_zero_iff)
  have low: "?v AND 0x7f = ?v"
    using d0 or_groups [of 0 0 ?v] by simp
  have "leb128_encode_loop ?v 0 10 = Inr [ucast (?v AND 0x7f)]"
    using d0 by (subst leb128_encode_loop.simps) simp
  then have "leb128_encode_loop ?v 0 10 = Inr [of_nat (2 * k)]"
    by (simp only: low ucast_of_nat_byte)
  then show ?thesis
    by (simp only: v mux_leb128_encode_def) simp
qed

lemma length_samples_of_bytes: "length (samples_of_bytes bs) = length bs div 2"
  by (induction bs rule: samples_of_bytes.induct) simp_all

lemma amr_need_fresh: "input_samples d = 0 \<Longrightarrow> amr_need d = 160"
  by (simp add: amr_need_def)

lemma amr_need_one: "input_samples d = 1 \<Longrightarrow> amr_need d = 159"
  by (simp add: amr_need_def)

lemma amr_encode_161:
  fixes native :: "'s native_encode"
  assumes al: "\<forall>n. alloc n"
    and fresh: "input_samples d = 0" "length (input_buf d) = 160"
    and out: "buf_wf (enc_output enc)"
    and lenS: "length S = 161"
    and n1: "native (encoder d) (mode d) (take 160 S) = (fs1, fb1, st1)" "0 \<le> fs1"
  shows "amr_encode_loop native alloc enc d S 0 =
           (MUX_OK,
            enc\<lparr>enc_output := snd (mux_leb128_write_frame alloc (enc_output enc) (Some fb1) (nat fs1)
                                      MUX_STREAM_AUDIO (enc_num_streams enc))\<rparr>,
            d\<lparr>encoder := st1, input_buf := S ! 160 # drop 1 (take 160 S), input_samples := 1\<rparr>,
            322)"
proof -
  let ?w = "mux_leb128_write_frame alloc (enc_output enc) (Some fb1) (nat fs1)
              MUX_STREAM_AUDIO (enc_num_streams enc)"
  from write_frame_any_mode [OF out al, of fb1 "nat fs1" MUX_STREAM_AUDIO "enc_num_streams enc"]
  obtain o1 where w: "?w = (MUX_OK, o1)"
    by (cases ?w) auto
  from lenS have ne: "S \<noteq> []" by auto
  have f1: "amr_fill d S = d\<lparr>input_buf := take 160 S, input_samples := 160\<rparr>"
    using fresh lenS by (simp add: amr_fill_def amr_need_fresh memcpy_into_def)
  have m1: "min (length S) (amr_need d) = 160"
    using fresh lenS by (simp add: amr_need_fresh)
  let ?d2 = "d\<lparr>input_buf := take 160 S, encoder := st1, input_samples := 0\<rparr>"
  let ?e2 = "enc\<lparr>enc_output := o1\<rparr>"
  have step1: "amr_encode_loop native alloc enc d S 0 =
               amr_encode_loop native alloc ?e2 ?d2 (drop 160 S) 320"
    apply (subst amr_encode_loop.simps)
    apply (simp only: ne if_False f1 m1)
    using n1 w apply simp
    done
  let ?S2 = "drop 160 S"
  have len2: "length ?S2 = 1" using lenS by simp
  then have ne2: "?S2 \<noteq> []" by auto
  have s2: "?S2 = [S ! 160]"
  proof -
    from lenS have "160 < length S" by simp
    then have "drop 160 S = S ! 160 # drop (Suc 160) S" by (rule Cons_nth_drop_Suc [symmetric])
    with lenS show ?thesis by simp
  qed
  have need2: "amr_need ?d2 = 160" by (simp add: amr_need_fresh)
  have m2: "min (length ?S2) (amr_need ?d2) = 1"
    using len2 need2 by simp
  have f2: "amr_fill ?d2 ?S2 = d\<lparr>encoder := st1, input_buf := S ! 160 # drop 1 (take 160 S), input_samples := 1\<rparr>"
    unfolding amr_fill_def m2 by (simp add: s2 memcpy_into_def)
  have step2: "amr_encode_loop native alloc ?e2 ?d2 ?S2 320 =
               amr_encode_loop native alloc ?e2 (amr_fill ?d2 ?S2) [] 322"
    apply (subst amr_encode_loop.simps)
    apply (simp only: ne2 if_False m2 f2)
    apply (simp add: s2)
    done
  have step3: "amr_encode_loop native alloc e dd [] c = (MUX_OK, e, dd, c)" for e dd c
    by (subst amr_encode_loop.simps) simp
  have "snd ?w = o1" by (simp add: w)
  then show ?thesis
    by (simp only: step1 step2 step3 f2)
qed

text \<open>
  Claim C9: an AMR-NB encoder with an empty sample window is given 161 samples (322
  bytes) of audio in one call, the native encoder answering with packets of positive
  size that fit the 32 bytes of \<open>frame_buf\<close>, allocations succeeding. Then
  \<open>amr_encoder_encode\<close> returns \<open>MUX_OK\<close> with all 322 bytes consumed, and the output
  buffer has gained exactly one frame, the packet of the first 160 samples: in
  passthrough mode the packet bytes, in dual-stream mode the header byte
  \<open>2 * frame_size\<close> (audio) followed by the packet bytes. The window keeps the one
  leftover sample (\<open>input_samples = 1\<close>). \<open>amr_encoder_finalize\<close> then encodes that
  sample followed by 159 zeros, appends the resulting packet as the second frame and
  empties the window.
\<close>

theorem amr_161_samples_one_frame_then_flush:
  fixes native :: "'s native_encode"
  assumes al: "\<forall>n. alloc n"
    and cd: "enc_codec_data enc = Some d"
    and fresh: "input_samples d = 0" "length (input_buf d) = 160"
    and out: "buf_wf (enc_output enc)"
    and inp: "length input = 322"
    and n1: "native (encoder d) (mode d) (take 160 (samples_of_bytes input)) = (fs1, fb1, st1)"
      "0 < fs1" "fs1 \<le> 32"
    and n2: "native st1 (mode d) (samples_of_bytes input ! 160 # replicate 159 0) = (fs2, fb2, st2)"
      "0 < fs2" "fs2 \<le> 32"
    and e1: "enc_next = enc\<lparr>enc_output := snd (mux_leb128_write_frame alloc (enc_output enc) (Some fb1)
                                           (nat fs1) MUX_STREAM_AUDIO (enc_num_streams enc)),
                        enc_codec_data := Some (d\<lparr>encoder := st1,
                            input_buf := samples_of_bytes input ! 160 # drop 1 (take 160 (samples_of_bytes input)),
                            input_samples := 1\<rparr>)\<rparr>"
  shows "amr_encoder_encode native alloc enc (Some input) MUX_STREAM_AUDIO = (MUX_OK, enc_next, Some 322) \<and>
         amr_encoder_finalize native alloc enc_next =
           (MUX_OK,
            enc_next\<lparr>enc_output := snd (mux_leb128_write_frame alloc (enc_output enc_next) (Some fb2)
                                       (nat fs2) MUX_STREAM_AUDIO (enc_num_streams enc_next)),
                 enc_codec_data := Some (d\<lparr>encoder := st2,
                     input_buf := samples_of_bytes input ! 160 # replicate 159 0,
                     input_samples := 0\<rparr>)\<rparr>) \<and>
         (enc_num_streams enc = 1 \<longrightarrow>
            unread (enc_output enc_next) = unread (enc_output enc) @ take (nat fs1) fb1 \<and>
            unread (enc_output (snd (amr_encoder_finalize native alloc enc_next))) =
              unread (enc_output enc) @ take (nat fs1) fb1 @ take (nat fs2) fb2) \<and>
         (enc_num_streams enc = 2 \<longrightarrow>
            unread (enc_output enc_next) =
              unread (enc_output enc) @ [of_nat (2 * nat fs1)] @ take (nat fs1) fb1 \<and>
            unread (enc_output (snd (amr_encoder_finalize native alloc enc_next))) =
              unread (enc_output enc) @ [of_nat (2 * nat fs1)] @ take (nat fs1) fb1 @
                [of_nat (2 * nat fs2)] @ take (nat fs2) fb2)"
proof -
  let ?S = "samples_of_bytes input"
  have lenS: "length ?S = 161" by (simp add: length_samples_of_bytes inp)
  from n1(2) have nn: "0 \<le> fs1" by simp
  note loop = amr_encode_161 [of alloc d enc ?S native fs1 fb1 st1, OF al fresh out lenS n1(1) nn]
  from inp have "length input \<noteq> 0" by simp
  then have enc_res: "amr_encoder_encode native alloc enc (Some input) MUX_STREAM_AUDIO = (MUX_OK, enc_next, Some 322)"
    by (simp add: amr_encoder_encode_def cd loop e1)
  let ?w1 = "mux_leb128_write_frame alloc (enc_output enc) (Some fb1) (nat fs1) MUX_STREAM_AUDIO (enc_num_streams enc)"
  from write_frame_any_mode [OF out al, of fb1 "nat fs1" MUX_STREAM_AUDIO "enc_num_streams enc"]
  have wf1: "buf_wf (enc_output enc_next)" by (simp add: e1)
  have o1: "enc_output enc_next = snd ?w1" and ns1: "enc_num_streams enc_next = enc_num_streams enc"
    by (simp_all add: e1)
  let ?w2 = "mux_leb128_write_frame alloc (enc_output enc_next) (Some fb2) (nat fs2) MUX_STREAM_AUDIO (enc_num_streams enc_next)"
  from write_frame_any_mode [OF wf1 al, of fb2 "nat fs2" MUX_STREAM_AUDIO "enc_num_streams enc_next"]
  obtain o2 where w2: "?w2 = (MUX_OK, o2)" by (cases ?w2) auto
  let ?d1 = "d\<lparr>encoder := st1, input_buf := ?S ! 160 # drop 1 (take 160 ?S), input_samples := 1\<rparr>"
  have cd1: "enc_codec_data enc_next = Some ?d1" by (simp add: e1)
  have need1: "amr_need ?d1 = 159" by (simp add: amr_need_one)
  have pad: "memcpy_into (input_buf ?d1) (nat (sint (input_samples ?d1))) (replicate (amr_need ?d1) 0)
             = ?S ! 160 # replicate 159 0"
    unfolding need1 using lenS by (simp add: memcpy_into_def)
  have pos: "0 <s input_samples ?d1" by (simp add: word_sless_alt)
  have fin0: "amr_encoder_finalize native alloc enc_next =
           (MUX_OK, enc_next\<lparr>enc_output := o2,
                 enc_codec_data := Some (d\<lparr>encoder := st2, input_buf := ?S ! 160 # replicate 159 0,
                     input_samples := 0\<rparr>)\<rparr>)"
    unfolding amr_encoder_finalize_def cd1 option.case if_P [OF pos] Let_def pad
    using n2 w2 by simp
  have so2: "snd ?w2 = o2" by (simp add: w2)
  have fin: "amr_encoder_finalize native alloc enc_next =
           (MUX_OK, enc_next\<lparr>enc_output := snd ?w2,
                 enc_codec_data := Some (d\<lparr>encoder := st2, input_buf := ?S ! 160 # replicate 159 0,
                     input_samples := 0\<rparr>)\<rparr>)"
    by (simp only: fin0 so2)
  have fo: "enc_output (snd (amr_encoder_finalize native alloc enc_next)) = snd ?w2"
    by (simp add: fin)
  have pass: "enc_num_streams enc = 1 \<longrightarrow>
            unread (enc_output enc_next) = unread (enc_output enc) @ take (nat fs1) fb1 \<and>
            unread (enc_output (snd (amr_encoder_finalize native alloc enc_next))) =
              unread (enc_output enc) @ take (nat fs1) fb1 @ take (nat fs2) fb2"
  proof
    assume m: "enc_num_streams enc = 1"
    have a: "unread (enc_output enc_next) = unread (enc_output enc) @ take (nat fs1) fb1"
      unfolding o1 m by (rule write_frame_passthrough_unread [OF out al])
    have "unread (snd ?w2) = unread (enc_output enc_next) @ take (nat fs2) fb2"
      unfolding ns1 m by (rule write_frame_passthrough_unread [OF wf1 al])
    with a show "unread (enc_output enc_next) = unread (enc_output enc) @ take (nat fs1) fb1 \<and>
            unread (enc_output (snd (amr_encoder_finalize native alloc enc_next))) =
              unread (enc_output enc) @ take (nat fs1) fb1 @ take (nat fs2) fb2"
      by (simp only: fo) simp
  qed
  have dual: "enc_num_streams enc = 2 \<longrightarrow>
            unread (enc_output enc_next) =
              unread (enc_output enc) @ [of_nat (2 * nat fs1)] @ take (nat fs1) fb1 \<and>
            unread (enc_output (snd (amr_encoder_finalize native alloc enc_next))) =
              unread (enc_output enc) @ [of_nat (2 * nat fs1)] @ take (nat fs1) fb1 @
                [of_nat (2 * nat fs2)] @ take (nat fs2) fb2"
  proof
    assume m: "enc_num_streams enc = 2"
    have ns: "(2 :: int) \<noteq> 1" by simp
    from n1(3) have k1: "nat fs1 \<le> 63" by simp
    from n2(3) have k2: "nat fs2 \<le> 63" by simp
    have a: "unread (enc_output enc_next) =
               unread (enc_output enc) @ [of_nat (2 * nat fs1)] @ take (nat fs1) fb1"
      unfolding o1 m
      by (rule write_frame_mux_unread [OF out al ns audio_header_one_byte [OF k1]])
    have "unread (snd ?w2) =
            unread (enc_output enc_next) @ [of_nat (2 * nat fs2)] @ take (nat fs2) fb2"
      unfolding ns1 m
      by (rule write_frame_mux_unread [OF wf1 al ns audio_header_one_byte [OF k2]])
    with a show "unread (enc_output enc_next) =
              unread (enc_output enc) @ [of_nat (2 * nat fs1)] @ take (nat fs1) fb1 \<and>
            unread (enc_output (snd (amr_encoder_finalize native alloc enc_next))) =
              unread (enc_output enc) @ [of_nat (2 * nat fs1)] @ take (nat fs1) fb1 @
                [of_nat (2 * nat fs2)] @ take (nat fs2) fb2"
      by (simp only: fo) simp
  qed
  from enc_res fin pass dual show ?thesis by (simp only: simp_thms)
qed


theorem amr_161_samples_one_frame_then_flush_witness:
  "snd (snd (amr_encoder_encode counting_encoder alloc_always (amr_encoder_after_init 1)
       (Some (replicate 322 1)) MUX_STREAM_AUDIO)) = Some 322 \<and>
   unread (enc_output (fst (snd (amr_encoder_encode counting_encoder alloc_always
       (amr_encoder_after_init 1) (Some (replicate 322 1)) MUX_STREAM_AUDIO)))) = [0x3c, 0] \<and>
   unread (enc_output (snd (amr_encoder_finalize counting_encoder alloc_always
       (fst (snd (amr_encoder_encode counting_encoder alloc_always
          (amr_encoder_after_init 1) (Some (replicate 322 1)) MUX_STREAM_AUDIO)))))) =
     [0x3c, 0, 0x3c, 1] \<and>
   snd (snd (amr_encoder_encode counting_encoder alloc_always (amr_encoder_after_init 2)
       (Some (replicate 322 1)) MUX_STREAM_AUDIO)) = Some 322 \<and>
   unread (enc_output (fst (snd (amr_encoder_encode counting_encoder alloc_always
       (amr_encoder_after_init 2) (Some (replicate 322 1)) MUX_STREAM_AUDIO)))) = [0x04, 0x3c, 0] \<and>
   unread (enc_output (snd (amr_encoder_finalize counting_encoder alloc_always
       (fst (snd (amr_encoder_encode counting_encoder alloc_always
          (amr_encoder_after_init 2) (Some (replicate 322 1)) MUX_STREAM_AUDIO)))))) =
     [0x04, 0x3c, 0, 0x04, 0x3c, 1]"
proof -
  let ?d = "\<lparr>encoder = 0 :: nat, mode = 7, dtx = 0, input_buf = replicate 160 0, input_samples = 0\<rparr>"
  let ?input = "replicate 322 (1 :: byte)"
  let ?S = "samples_of_bytes ?input"
  let ?fb1 = "[0x3c, 0] @ replicate 30 (0 :: byte)"
  let ?fb2 = "[0x3c, 1] @ replicate 30 (0 :: byte)"
  have al: "\<forall>n. alloc_always n" by (simp add: alloc_always_def)
  have a4096: "alloc_always 4096" by (simp add: alloc_always_def)
  have fresh: "input_samples ?d = 0" "length (input_buf ?d) = 160" by simp_all
  have inp: "length ?input = 322" by simp
  have n1: "counting_encoder (encoder ?d) (mode ?d) (take 160 ?S) = (2, ?fb1, 1)"
    "(0 :: int) < 2" "(2 :: int) \<le> 32"
    by (simp_all add: counting_encoder_def)
  have n2: "counting_encoder 1 (mode ?d) (?S ! 160 # replicate 159 0) = (2, ?fb2, 2)"
    "(0 :: int) < 2" "(2 :: int) \<le> 32"
    by (simp_all add: counting_encoder_def)
  have bytes: "take (nat 2) ?fb1 = [0x3c, 0]" "take (nat 2) ?fb2 = [0x3c, 1]"
    "[of_nat (2 * nat 2)] = [0x04 :: byte]"
    by simp_all
  have inst:
    "snd (snd (amr_encoder_encode counting_encoder alloc_always (amr_encoder_after_init ns)
        (Some ?input) MUX_STREAM_AUDIO)) = Some 322 \<and>
     (ns = 1 \<longrightarrow>
        unread (enc_output (fst (snd (amr_encoder_encode counting_encoder alloc_always
            (amr_encoder_after_init ns) (Some ?input) MUX_STREAM_AUDIO)))) = [0x3c, 0] \<and>
        unread (enc_output (snd (amr_encoder_finalize counting_encoder alloc_always
            (fst (snd (amr_encoder_encode counting_encoder alloc_always
               (amr_encoder_after_init ns) (Some ?input) MUX_STREAM_AUDIO)))))) =
          [0x3c, 0, 0x3c, 1]) \<and>
     (ns = 2 \<longrightarrow>
        unread (enc_output (fst (snd (amr_encoder_encode counting_encoder alloc_always
            (amr_encoder_after_init ns) (Some ?input) MUX_STREAM_AUDIO)))) = [0x04, 0x3c, 0] \<and>
        unread (enc_output (snd (amr_encoder_finalize counting_encoder alloc_always
            (fst (snd (amr_encoder_encode counting_encoder alloc_always
               (amr_encoder_after_init ns) (Some ?input) MUX_STREAM_AUDIO)))))) =
          [0x04, 0x3c, 0, 0x04, 0x3c, 1])" for ns
  proof -
    let ?e = "amr_encoder_after_init ns"
    let ?n = "?e\<lparr>enc_output := snd (mux_leb128_write_frame alloc_always (enc_output ?e) (Some ?fb1)
                                     (nat 2) MUX_STREAM_AUDIO (enc_num_streams ?e)),
                  enc_codec_data := Some (?d\<lparr>encoder := 1,
                      input_buf := ?S ! 160 # drop 1 (take 160 ?S),
                      input_samples := 1\<rparr>)\<rparr>"
    have cd: "enc_codec_data ?e = Some ?d" by (simp add: amr_encoder_after_init_def)
    have m: "enc_num_streams ?e = ns" by (simp add: amr_encoder_after_init_def)
    have eo: "enc_output ?e = snd (mux_buffer_init alloc_always 4096)"
      by (simp add: amr_encoder_after_init_def)
    from init_wf [of alloc_always 4096, OF a4096]
    have out: "buf_wf (enc_output ?e)" and u0: "unread (enc_output ?e) = []"
      by (simp_all only: eo)
    have e1: "?n = ?n" by (rule refl)
    note t = amr_161_samples_one_frame_then_flush
      [where alloc = alloc_always and enc = ?e and d = ?d and input = ?input
         and native = counting_encoder and enc_next = ?n,
       OF al cd fresh out inp n1 n2 e1]
    from t have r: "amr_encoder_encode counting_encoder alloc_always ?e (Some ?input) MUX_STREAM_AUDIO
                    = (MUX_OK, ?n, Some 322)"
      by (rule conjunct1)
    note p1 = t [THEN conjunct2, THEN conjunct2, THEN conjunct1]
    note p2 = t [THEN conjunct2, THEN conjunct2, THEN conjunct2]
    from p1 p2 show ?thesis
      unfolding r fst_conv snd_conv m u0 bytes by simp
  qed
  from inst [of 1] inst [of 2] show ?thesis by simp
qed
end
